theory Spec2Isabelle
  imports Main "HOL-Library.AList" "HOL-Library.Char_ord" "HOL-Library.List_Lexorder"
    "HOL-Library.Sublist"
begin

section \<open>Data model\<close>

text \<open>
  The analyzer of \<^verbatim>\<open>support/analyze_dependencies.py\<close>. A Python \<^verbatim>\<open>dict\<close> keeps its
  keys in insertion order, so \<^verbatim>\<open>modules\<close> and \<^verbatim>\<open>chain_lengths\<close> are association lists:
  \<^const>\<open>map_of\<close> is the lookup, \<^const>\<open>AList.update\<close> is the assignment \<^verbatim>\<open>d[k] = v\<close> (it replaces
  the value of a present key where it stands and appends an absent key at the end).

  \<^verbatim>\<open>AgdaModule.imports\<close> is a Python \<^verbatim>\<open>set\<close> that the depth computation iterates over. Its
  iteration order is fixed by the hashes of its elements, not by the program, so the field
  is the list of the elements in that order, and every statement below is about an
  arbitrary list. A set that is only tested for membership or measured
  (\<^verbatim>\<open>path\<close>, the values of \<^verbatim>\<open>reverse_deps\<close>) is a HOL set.
\<close>

record AgdaModule =
  name :: string
  filepath :: string
  imports_of :: "string list"
  public_imports :: "string list"
  is_literate :: bool

type_synonym module_dict = "(string \<times> AgdaModule) list"
type_synonym chain_dict = "(string \<times> nat) list"

record DependencyAnalyzer =
  modules :: module_dict
  reverse_deps :: "(string \<times> string set) list"

text \<open>\<^verbatim>\<open>module_name in self.modules\<close>: the keys of the dictionary.\<close>

definition known :: "module_dict \<Rightarrow> string set" where
  "known M = fst ` set M"

text \<open>\<^verbatim>\<open>AgdaModule.__init__\<close> (lines 25-30).\<close>

definition endswith :: "string \<Rightarrow> string \<Rightarrow> bool" where
  "endswith s suf = (length suf \<le> length s \<and> drop (length s - length suf) s = suf)"

definition AgdaModule_init :: "string \<Rightarrow> string \<Rightarrow> AgdaModule" where
  "AgdaModule_init nm fp =
     \<lparr>name = nm, filepath = fp, imports_of = [], public_imports = [],
      is_literate = endswith fp ''.lagda.md''\<rparr>"

text \<open>\<^verbatim>\<open>DependencyAnalyzer.__init__\<close> (lines 39-42); \<^verbatim>\<open>src_dir\<close> belongs to the file system.\<close>

definition DependencyAnalyzer_init :: DependencyAnalyzer where
  "DependencyAnalyzer_init = \<lparr>modules = [], reverse_deps = []\<rparr>"

section \<open>Import extraction\<close>

text \<open>
  Text is a list of characters, each one code point below 256. On these, \<^verbatim>\<open>\s\<close> of the
  \<^verbatim>\<open>re\<close> module and \<^verbatim>\<open>str.strip\<close> accept the code points 9-13, 28-32, 133 and 160, and
  \<^verbatim>\<open>\w\<close> accepts the underscore and the alphanumeric code points. Text with code points
  from 256 on is outside the model.
\<close>

definition is_space :: "char \<Rightarrow> bool" where
  "is_space c = (let n = (of_char c :: nat)
     in (9 \<le> n \<and> n \<le> 13) \<or> (28 \<le> n \<and> n \<le> 32) \<or> n = 133 \<or> n = 160)"

definition is_word :: "char \<Rightarrow> bool" where
  "is_word c = (let n = (of_char c :: nat)
     in (48 \<le> n \<and> n \<le> 57) \<or> (65 \<le> n \<and> n \<le> 90) \<or> n = 95 \<or> (97 \<le> n \<and> n \<le> 122)
        \<or> n = 170 \<or> n = 178 \<or> n = 179 \<or> n = 181 \<or> n = 185 \<or> n = 186
        \<or> (188 \<le> n \<and> n \<le> 190) \<or> (192 \<le> n \<and> n \<le> 214) \<or> (216 \<le> n \<and> n \<le> 246)
        \<or> (248 \<le> n \<and> n \<le> 255))"

definition newline :: char where
  "newline = CHR 0x0A"

text \<open>
  A backtracking matcher maps the text still to be read to the list of the texts that can
  remain after a match, the alternative the regular expression engine tries first coming
  first. \<open>rx_star\<close> and \<open>rx_plus\<close> are the greedy \<^verbatim>\<open>*\<close> and \<^verbatim>\<open>+\<close> on a character class,
  \<open>rx_opt\<close> the greedy \<^verbatim>\<open>?\<close>, \<open>rx_lit\<close> a literal, \<open>rx_seq\<close> concatenation, \<open>rx_end\<close> the
  anchor \<^verbatim>\<open>$\<close> (the end of the text, or the position before a final newline).
\<close>

type_synonym matcher = "string \<Rightarrow> string list"

definition rx_lit :: "string \<Rightarrow> matcher" where
  "rx_lit w s = (if take (length w) s = w then [drop (length w) s] else [])"

fun rx_star :: "(char \<Rightarrow> bool) \<Rightarrow> matcher" where
  "rx_star p [] = [[]]"
| "rx_star p (c # cs) = (if p c then rx_star p cs @ [c # cs] else [c # cs])"

definition rx_plus :: "(char \<Rightarrow> bool) \<Rightarrow> matcher" where
  "rx_plus p s = (case s of [] \<Rightarrow> [] | c # cs \<Rightarrow> if p c then rx_star p cs else [])"

definition rx_opt :: "matcher \<Rightarrow> matcher" where
  "rx_opt m s = m s @ [s]"

definition rx_seq :: "matcher \<Rightarrow> matcher \<Rightarrow> matcher" where
  "rx_seq m1 m2 s = concat (map m2 (m1 s))"

definition rx_end :: "string \<Rightarrow> bool" where
  "rx_end s = (s = [] \<or> s = [newline])"

text \<open>A capturing group: each remainder together with the text the group consumed.\<close>

definition rx_group :: "matcher \<Rightarrow> string \<Rightarrow> (string \<times> string) list" where
  "rx_group m s = map (\<lambda>r. (take (length s - length r) s, r)) (m s)"

text \<open>
  \<^verbatim>\<open>re.match(import_pattern, line)\<close> with
  \<^verbatim>\<open>import_pattern = r'^\s*(?:open\s+)?import\s+([\w.]+)(?:\s+.*)?$'\<close> (line 96): the result is
  group 1 of the first complete match in the engine's order, \<open>None\<close> when there is none.
\<close>

definition import_pattern :: "string \<Rightarrow> string option" where
  "import_pattern line =
     (case [captured.
              r1 \<leftarrow> rx_seq (rx_star is_space)
                     (rx_seq (rx_opt (rx_seq (rx_lit ''open'') (rx_plus is_space)))
                        (rx_seq (rx_lit ''import'') (rx_plus is_space))) line,
              (captured, r2) \<leftarrow> rx_group (rx_plus (\<lambda>c. is_word c \<or> c = CHR ''.'')) r1,
              r3 \<leftarrow> rx_opt (rx_seq (rx_plus is_space) (rx_star (\<lambda>c. c \<noteq> newline))) r2,
              rx_end r3]
      of [] \<Rightarrow> None | captured # _ \<Rightarrow> Some captured)"

text \<open>
  \<^verbatim>\<open>re.search(r'\bpublic\b', line)\<close> (lines 97, 110): the word \<^verbatim>\<open>public\<close> at some position,
  with no word character right before it and none right after it. \<open>prev\<close> is the
  character before the position, if any.
\<close>

definition public_at :: "char option \<Rightarrow> string \<Rightarrow> bool" where
  "public_at prev s =
     (take 6 s = ''public''
      \<and> \<not> (case prev of None \<Rightarrow> False | Some c \<Rightarrow> is_word c)
      \<and> \<not> (case drop 6 s of [] \<Rightarrow> False | c # _ \<Rightarrow> is_word c))"

fun public_pattern :: "char option \<Rightarrow> string \<Rightarrow> bool" where
  "public_pattern prev [] = False"
| "public_pattern prev (c # cs) = (public_at prev (c # cs) \<or> public_pattern (Some c) cs)"

text \<open>\<^verbatim>\<open>str.strip\<close>, \<^verbatim>\<open>str.startswith\<close>, \<^verbatim>\<open>content.split('\n')\<close> and \<^verbatim>\<open>set.add\<close>.\<close>

definition strip :: "string \<Rightarrow> string" where
  "strip s = rev (dropWhile is_space (rev (dropWhile is_space s)))"

definition startswith :: "string \<Rightarrow> string \<Rightarrow> bool" where
  "startswith s pre = (take (length pre) s = pre)"

fun split_lines :: "string \<Rightarrow> string list" where
  "split_lines [] = [[]]"
| "split_lines (c # cs) =
     (if c = newline then [] # split_lines cs
      else (case split_lines cs of [] \<Rightarrow> [[c]] | l # ls \<Rightarrow> (c # l) # ls))"

definition set_add :: "'a \<Rightarrow> 'a list \<Rightarrow> 'a list" where
  "set_add x xs = (if x \<in> set xs then xs else xs @ [x])"

text \<open>
  The body of the loop of \<^verbatim>\<open>_parse_imports\<close> (lines 99-111), and the method itself. Its
  second argument is the text the loop scans: the text of the file or, for a literate file,
  what \<^verbatim>\<open>_extract_code_blocks\<close> returned; \<open>None\<close> when reading the file raised, which
  the \<^verbatim>\<open>except\<close> clause turns into a message and an untouched module.
\<close>

definition parse_line :: "AgdaModule \<Rightarrow> string \<Rightarrow> AgdaModule" where
  "parse_line module line =
     (if startswith (strip line) ''--'' then module
      else (case import_pattern line of
              None \<Rightarrow> module
            | Some imported_module \<Rightarrow>
                (let module1 = module\<lparr>imports_of := set_add imported_module (imports_of module)\<rparr>
                 in if public_pattern None line
                    then module1\<lparr>public_imports := set_add imported_module (public_imports module1)\<rparr>
                    else module1)))"

definition parse_imports :: "AgdaModule \<Rightarrow> string option \<Rightarrow> AgdaModule" where
  "parse_imports module content =
     (case content of
        None \<Rightarrow> module
      | Some text \<Rightarrow> fold (\<lambda>line m. parse_line m line) (split_lines text) module)"

section \<open>Graph construction\<close>

text \<open>
  \<^verbatim>\<open>scan_modules\<close> (lines 44-67). The files found by \<^verbatim>\<open>glob\<close> are given as triples: the
  name \<^verbatim>\<open>_filepath_to_module_name\<close> returned, the path, and the text for
  \<^verbatim>\<open>_parse_imports\<close>. \<^verbatim>\<open>reverse_deps\<close> is a \<^verbatim>\<open>defaultdict(set)\<close>: reading a missing key
  creates it with the empty set.
\<close>

definition rd_get :: "(string \<times> string set) list \<Rightarrow> string \<Rightarrow> string set" where
  "rd_get rd k = (case map_of rd k of None \<Rightarrow> {} | Some s \<Rightarrow> s)"

definition rd_add :: "string \<Rightarrow> string \<Rightarrow> (string \<times> string set) list \<Rightarrow> (string \<times> string set) list" where
  "rd_add imported module_name rd = AList.update imported (insert module_name (rd_get rd imported)) rd"

definition scan_file :: "module_dict \<Rightarrow> string \<times> string \<times> string option \<Rightarrow> module_dict" where
  "scan_file mods f =
     (case f of (module_name, fp, content) \<Rightarrow>
        if module_name \<noteq> []
        then AList.update module_name (parse_imports (AgdaModule_init module_name fp) content) mods
        else mods)"

definition build_reverse_deps :: "module_dict \<Rightarrow> (string \<times> string set) list \<Rightarrow> (string \<times> string set) list" where
  "build_reverse_deps mods rd =
     fold (\<lambda>(module_name, module) rd1.
             fold (\<lambda>imported rd2. rd_add imported module_name rd2) (imports_of module) rd1)
          mods rd"

definition scan_modules ::
  "DependencyAnalyzer \<Rightarrow> (string \<times> string \<times> string option) list \<Rightarrow> DependencyAnalyzer" where
  "scan_modules self agda_files =
     (let mods = fold (\<lambda>f m. scan_file m f) agda_files (modules self)
      in self\<lparr>modules := mods, reverse_deps := build_reverse_deps mods (reverse_deps self)\<rparr>)"

section \<open>Rankings\<close>

text \<open>
  \<^verbatim>\<open>xs[:limit]\<close> for a Python integer: a negative \<^verbatim>\<open>limit\<close> counts from the end.
  \<^verbatim>\<open>list.sort(key=...)\<close> is a stable sort, and the result of a stable sort is determined
  by the list and the key, so it is \<^const>\<open>sort_key\<close>; with \<^verbatim>\<open>reverse=True\<close> the list is
  reversed before and after the same stable sort, which keeps elements of equal key in
  their original order.
\<close>

definition slice_to :: "int \<Rightarrow> 'a list \<Rightarrow> 'a list" where
  "slice_to limit xs =
     (if limit < 0 then take (nat (int (length xs) + limit)) xs else take (nat limit) xs)"

definition sort_reverse :: "('a \<Rightarrow> nat) \<Rightarrow> 'a list \<Rightarrow> 'a list" where
  "sort_reverse f xs = rev (sort_key f (rev xs))"

text \<open>
  \<^verbatim>\<open>find_foundational_modules\<close> (lines 131-142) and \<^verbatim>\<open>find_hub_modules\<close> (lines 144-154);
  the lists the two loops build, before sorting, keep the names of the source.
\<close>

definition internal_imports :: "module_dict \<Rightarrow> AgdaModule \<Rightarrow> nat" where
  "internal_imports M module = length [imp \<leftarrow> imports_of module. imp \<in> known M]"

definition modules_by_import_count :: "DependencyAnalyzer \<Rightarrow> (string \<times> nat) list" where
  "modules_by_import_count self =
     map (\<lambda>(nm, module). (nm, internal_imports (modules self) module)) (modules self)"

definition find_foundational_modules :: "DependencyAnalyzer \<Rightarrow> int \<Rightarrow> (string \<times> nat) list" where
  "find_foundational_modules self limit =
     slice_to limit (sort_key snd (modules_by_import_count self))"

definition modules_by_dependent_count :: "DependencyAnalyzer \<Rightarrow> (string \<times> nat) list" where
  "modules_by_dependent_count self =
     map (\<lambda>nm. (nm, card (rd_get (reverse_deps self) nm))) (map fst (modules self))"

definition find_hub_modules :: "DependencyAnalyzer \<Rightarrow> int \<Rightarrow> (string \<times> nat) list" where
  "find_hub_modules self limit =
     slice_to limit (sort_reverse snd (modules_by_dependent_count self))"

section \<open>Depth computation\<close>

text \<open>
  \<^verbatim>\<open>dfs\<close> (lines 162-184) with its \<^verbatim>\<open>for\<close> loop as \<open>dfs_loop\<close>. The memo table
  \<^verbatim>\<open>chain_lengths\<close> is threaded through every call and returned. The set \<^verbatim>\<open>path\<close> is
  shared and mutated in the source, but \<^verbatim>\<open>path.add(module_name)\<close> runs only when the name
  is not in \<^verbatim>\<open>path\<close> and \<^verbatim>\<open>path.remove(module_name)\<close> undoes it before the return, so each
  call leaves \<^verbatim>\<open>path\<close> as it found it; the model passes the enlarged set down to the loop.
  \<^verbatim>\<open>self.modules[module_name]\<close> is read only after the test that the name is a key, so
  the \<open>None\<close> case of that lookup is never reached; it returns what the test returns.
  \<open>dfs\<close> leaves out the interpreter's bound on the depth of the call stack: it is what the
  source computes when that bound is not reached. \<open>dfs_frames\<close> below has the bound.
\<close>

function dfs :: "module_dict \<Rightarrow> string \<Rightarrow> string set \<Rightarrow> chain_dict \<Rightarrow> nat \<times> chain_dict"
  and dfs_loop :: "module_dict \<Rightarrow> string set \<Rightarrow> string list \<Rightarrow> nat \<Rightarrow> chain_dict \<Rightarrow> nat \<times> chain_dict"
where
  "dfs M module_name path chain_lengths =
     (case map_of chain_lengths module_name of
        Some d \<Rightarrow> (d, chain_lengths)
      | None \<Rightarrow>
          if module_name \<notin> known M then (0, chain_lengths)
          else if module_name \<in> path then (0, chain_lengths)
          else (case map_of M module_name of
                  None \<Rightarrow> (0, chain_lengths)
                | Some module \<Rightarrow>
                    (case dfs_loop M (insert module_name path) (imports_of module) 0 chain_lengths of
                       (max_depth, cl) \<Rightarrow> (max_depth, AList.update module_name max_depth cl))))"
| "dfs_loop M path [] max_depth chain_lengths = (max_depth, chain_lengths)"
| "dfs_loop M path (imported # rest) max_depth chain_lengths =
     (if imported \<in> known M
      then (case dfs M imported path chain_lengths of
              (depth, cl) \<Rightarrow> dfs_loop M path rest (max max_depth (depth + 1)) cl)
      else dfs_loop M path rest max_depth chain_lengths)"
  by pat_completeness auto

termination
proof (relation "measures [\<lambda>x. case x of Inl (M, n, path, cl) \<Rightarrow> card (known M - path)
                                       | Inr (M, path, imps, md, cl) \<Rightarrow> card (known M - path),
                           \<lambda>x. case x of Inl _ \<Rightarrow> 0 | Inr (M, path, imps, md, cl) \<Rightarrow> Suc (length imps)]",
       goal_cases)
  case 1
  show ?case by simp
next
  case (2 M nm path chain_lengths m)
  have "finite (known M - path)" by (simp add: known_def)
  moreover have "known M - insert nm path \<subset> known M - path"
    using 2 by auto
  ultimately have "card (known M - insert nm path) < card (known M - path)"
    by (rule psubset_card_mono)
  then show ?case by simp
qed simp_all

text \<open>The driving loop of \<^verbatim>\<open>calculate_dependency_chains\<close> (lines 186-190).\<close>

fun chains_loop :: "module_dict \<Rightarrow> string list \<Rightarrow> chain_dict \<Rightarrow> chain_dict" where
  "chains_loop M [] chain_lengths = chain_lengths"
| "chains_loop M (module_name # rest) chain_lengths =
     (if module_name \<notin> fst ` set chain_lengths
      then chains_loop M rest (snd (dfs M module_name {} chain_lengths))
      else chains_loop M rest chain_lengths)"

definition calculate_dependency_chains :: "module_dict \<Rightarrow> chain_dict" where
  "calculate_dependency_chains M = chains_loop M (map fst M) []"

text \<open>
  \<^verbatim>\<open>chain_lengths.get(module_name, 0)\<close> (line 338): the depth on record for a name.
\<close>

definition chain_get :: "chain_dict \<Rightarrow> string \<Rightarrow> nat" where
  "chain_get chain_lengths module_name =
     (case map_of chain_lengths module_name of None \<Rightarrow> 0 | Some d \<Rightarrow> d)"

section \<open>Depth computation under the recursion limit\<close>









section \<open>Depth tiers\<close>

text \<open>
  \<^verbatim>\<open>analyze_dependency_patterns\<close> (lines 192-216). The loop of lines 201-207 appends each
  item of \<^verbatim>\<open>chain_lengths\<close> to one of three lists. \<^verbatim>\<open>avg_depth\<close> is a floating-point
  quotient and is left out of the record.
\<close>

record dependency_patterns =
  chain_lengths :: chain_dict
  shallow :: "(string \<times> nat) list"
  medium :: "(string \<times> nat) list"
  deep :: "(string \<times> nat) list"
  max_depth :: nat

fun categorize ::
  "(string \<times> nat) list \<Rightarrow> (string \<times> nat) list \<Rightarrow> (string \<times> nat) list \<Rightarrow> (string \<times> nat) list
   \<Rightarrow> (string \<times> nat) list \<times> (string \<times> nat) list \<times> (string \<times> nat) list" where
  "categorize [] sh me de = (sh, me, de)"
| "categorize ((module_name, depth) # rest) sh me de =
     (if depth \<le> 5 then categorize rest (sh @ [(module_name, depth)]) me de
      else if depth \<le> 15 then categorize rest sh (me @ [(module_name, depth)]) de
      else categorize rest sh me (de @ [(module_name, depth)]))"

definition analyze_dependency_patterns :: "DependencyAnalyzer \<Rightarrow> dependency_patterns" where
  "analyze_dependency_patterns self =
     (let cl = calculate_dependency_chains (modules self)
      in case categorize cl [] [] [] of
           (sh, me, de) \<Rightarrow>
             \<lparr>chain_lengths = cl,
              shallow = sort_key snd sh,
              medium = sort_key snd me,
              deep = sort_reverse snd de,
              max_depth = (if cl = [] then 0 else Max (set (map snd cl)))\<rparr>)"

section \<open>Notions used in the statements\<close>

text \<open>
  The resolvable imports of a name are the imports of its module that are keys of
  \<^verbatim>\<open>modules\<close> (the test of line 178); they are the edges of the dependency graph.
\<close>

definition resolvable_imports :: "module_dict \<Rightarrow> string \<Rightarrow> string list" where
  "resolvable_imports M n =
     (case map_of M n of None \<Rightarrow> [] | Some module \<Rightarrow> [i \<leftarrow> imports_of module. i \<in> known M])"

definition import_edges :: "module_dict \<Rightarrow> (string \<times> string) set" where
  "import_edges M = {(n, i). i \<in> set (resolvable_imports M n)}"

text \<open>
  The part of a line that the import pattern reads before group 1: whitespace, then
  optionally \<^verbatim>\<open>open\<close> and whitespace, then \<^verbatim>\<open>import\<close> and whitespace
  (\<^verbatim>\<open>^\s*(?:open\s+)?import\s+\<close>). The token at the import position is what stands
  between such a prefix and the next whitespace or the end of the line.
\<close>

definition import_prefix :: "string \<Rightarrow> bool" where
  "import_prefix pre \<longleftrightarrow>
     (\<exists>ws opn ws2.
        pre = ws @ opn @ ''import'' @ ws2
        \<and> list_all is_space ws
        \<and> (opn = [] \<or> (\<exists>ws1. opn = ''open'' @ ws1 \<and> ws1 \<noteq> [] \<and> list_all is_space ws1))
        \<and> ws2 \<noteq> [] \<and> list_all is_space ws2)"

text \<open>
  A memo table is settled when each entry has all its resolvable imports in the table and
  holds the value the loop of \<^verbatim>\<open>dfs\<close> computes from their entries.
\<close>

definition settled :: "module_dict \<Rightarrow> chain_dict \<Rightarrow> bool" where
  "settled M cl =
     (\<forall>n d. map_of cl n = Some d \<longrightarrow>
        set (resolvable_imports M n) \<subseteq> fst ` set cl
        \<and> d = fold max (map (\<lambda>i. chain_get cl i + 1) (resolvable_imports M n)) 0)"

text \<open>
  What a call of \<^verbatim>\<open>dfs\<close> or of its loop does to a settled table \<open>cl\<close>: the table \<open>cl'\<close>
  it returns is settled, keeps every entry of \<open>cl\<close>, and has no new key on the path.
\<close>

definition dfs_post :: "module_dict \<Rightarrow> string set \<Rightarrow> chain_dict \<Rightarrow> chain_dict \<Rightarrow> bool" where
  "dfs_post M path cl cl' \<longleftrightarrow>
     settled M cl' \<and> map_of cl \<subseteq>\<^sub>m map_of cl' \<and> (fst ` set cl' - fst ` set cl) \<inter> path = {}"

text \<open>
  Two graphs for the examples: the chain \<open>A \<rightarrow> B \<rightarrow> C \<rightarrow> D\<close>, and a module \<open>X\<close> that
  imports the ends of chains of lengths 0, 2 and 5 and one name that is no module.
\<close>

definition linear_chain :: module_dict where
  "linear_chain =
     [(''A'', (AgdaModule_init ''A'' ''A.agda'')\<lparr>imports_of := [''B'']\<rparr>),
      (''B'', (AgdaModule_init ''B'' ''B.agda'')\<lparr>imports_of := [''C'']\<rparr>),
      (''C'', (AgdaModule_init ''C'' ''C.agda'')\<lparr>imports_of := [''D'']\<rparr>),
      (''D'', AgdaModule_init ''D'' ''D.agda'')]"

definition fan_graph :: module_dict where
  "fan_graph =
     [(''X'', (AgdaModule_init ''X'' ''X.agda'')\<lparr>imports_of := [''P0'', ''P2'', ''Ext'', ''P5'']\<rparr>),
      (''P0'', AgdaModule_init ''P0'' ''P0.agda''),
      (''P1'', (AgdaModule_init ''P1'' ''P1.agda'')\<lparr>imports_of := [''P0'']\<rparr>),
      (''P2'', (AgdaModule_init ''P2'' ''P2.agda'')\<lparr>imports_of := [''P1'']\<rparr>),
      (''P3'', (AgdaModule_init ''P3'' ''P3.agda'')\<lparr>imports_of := [''P2'']\<rparr>),
      (''P4'', (AgdaModule_init ''P4'' ''P4.agda'')\<lparr>imports_of := [''P3'']\<rparr>),
      (''P5'', (AgdaModule_init ''P5'' ''P5.agda'')\<lparr>imports_of := [''P4'']\<rparr>)]"

text \<open>
  Three files for the examples: \<open>Cat\<close> re-exports \<open>Base\<close>, imports \<open>Prim\<close> and a name
  \<open>Ext\<close> that no file defines, and has an import in a comment; \<open>Base\<close> imports
  \<open>Prim\<close>; \<open>Prim\<close> is empty.
\<close>

definition example_files :: "(string \<times> string \<times> string option) list" where
  "example_files =
     [(''Cat'', ''Cat.agda'',
         Some (''open import Base public'' @ [newline] @ ''import Prim'' @ [newline]
               @ ''-- import Old'' @ [newline] @ ''import Ext'')),
      (''Base'', ''Base.lagda.md'', Some ''import Prim''),
      (''Prim'', ''Prim.agda'', Some [])]"

definition example_analyzer :: DependencyAnalyzer where
  "example_analyzer = scan_modules DependencyAnalyzer_init example_files"

section \<open>Properties of the depth computation\<close>

declare dfs.simps [simp del]

lemma dfs_memo: "map_of cl n = Some d \<Longrightarrow> dfs M n path cl = (d, cl)"
  by (simp add: dfs.simps)

lemma dfs_on_path: "map_of cl n = None \<Longrightarrow> n \<in> path \<Longrightarrow> dfs M n path cl = (0, cl)"
  by (simp add: dfs.simps)

lemma dfs_loop_const:
  "\<forall>i\<in>set imps. i \<in> known M \<longrightarrow> dfs M i path cl = (d, cl) \<Longrightarrow>
   dfs_loop M path imps md cl = (if set imps \<inter> known M = {} then md else max md (d + 1), cl)"
  by (induction imps arbitrary: md) auto

subsection \<open>Two modules importing each other\<close>

lemma two_cycle_second:
  assumes "a \<noteq> b" "set (imports_of mb) \<inter> {a, b} = {a}"
  shows "dfs [(a, ma), (b, mb)] b {a} [] = (1, [(b, 1)])"
proof -
  let ?M = "[(a, ma), (b, mb)]"
  have k: "known ?M = {a, b}" by (auto simp: known_def)
  have in_a: "a \<in> set (imports_of mb)" using assms(2) by blast
  have out_b: "b \<notin> set (imports_of mb)"
  proof
    assume "b \<in> set (imports_of mb)"
    then have "b \<in> set (imports_of mb) \<inter> {a, b}" by simp
    then have "b \<in> {a}" by (simp only: assms(2))
    then show False using assms(1) by simp
  qed
  have "\<forall>i\<in>set (imports_of mb). i \<in> known ?M \<longrightarrow> dfs ?M i {a, b} [] = (0, [])"
    using out_b unfolding k by (auto simp: dfs_on_path)
  then have "dfs_loop ?M {a, b} (imports_of mb) 0 [] =
      (if set (imports_of mb) \<inter> known ?M = {} then 0 else max 0 (0 + 1), [])"
    by (rule dfs_loop_const)
  moreover have "set (imports_of mb) \<inter> known ?M \<noteq> {}" using in_a unfolding k by blast
  ultimately have "dfs_loop ?M {a, b} (imports_of mb) 0 [] = (1, [])" by simp
  moreover have "insert b {a} = {a, b}" by auto
  ultimately show ?thesis using assms(1) by (simp add: dfs.simps k)
qed

lemma two_cycle_first_loop:
  assumes "a \<noteq> b" "set (imports_of mb) \<inter> {a, b} = {a}" "set imps \<inter> {a, b} \<subseteq> {b}"
  shows "dfs_loop [(a, ma), (b, mb)] {a} imps 0 [] =
         (if b \<in> set imps then (2, [(b, 1)]) else (0, []))"
  using assms(3)
proof (induction imps)
  case Nil
  then show ?case by simp
next
  case (Cons x xs)
  let ?M = "[(a, ma), (b, mb)]"
  have k: "known ?M = {a, b}" by (auto simp: known_def)
  show ?case
  proof (cases "x = b")
    case True
    have "a \<notin> set xs" using Cons.prems assms(1) by auto
    then have "\<forall>i\<in>set xs. i \<in> known ?M \<longrightarrow> dfs ?M i {a} [(b, 1)] = (1, [(b, 1)])"
      unfolding k by (auto simp: dfs_memo)
    then have "dfs_loop ?M {a} xs 2 [(b, 1)] =
        (if set xs \<inter> known ?M = {} then 2 else max 2 (1 + 1), [(b, 1)])"
      by (rule dfs_loop_const)
    then have "dfs_loop ?M {a} xs 2 [(b, 1)] = (2, [(b, 1)])" by simp
    then show ?thesis using True two_cycle_second[OF assms(1,2), of ma]
      by (simp add: k numeral_2_eq_2)
  next
    case False
    then have "x \<notin> known ?M" using Cons.prems unfolding k by auto
    moreover have "set xs \<inter> {a, b} \<subseteq> {b}" using Cons.prems by auto
    ultimately show ?thesis using Cons.IH False by simp
  qed
qed

text \<open>
  Claim C1, as the code has it. Two known modules \<open>a\<close> (discovered first) and \<open>b\<close>, each
  importing the other and no other known module (imports of unknown names are allowed):
  the depth computation returns, and it records depth 1 for \<open>b\<close> and depth 2 for \<open>a\<close>.
  The back edge from \<open>b\<close> to \<open>a\<close> counts 0 for \<open>a\<close> and so 1 for \<open>b\<close>.
\<close>

theorem two_cycle_depths:
  assumes "a \<noteq> b"
    and "set (imports_of ma) \<inter> {a, b} = {b}"
    and "set (imports_of mb) \<inter> {a, b} = {a}"
  shows "calculate_dependency_chains [(a, ma), (b, mb)] = [(b, 1), (a, 2)]"
proof -
  let ?M = "[(a, ma), (b, mb)]"
  have k: "known ?M = {a, b}" by (auto simp: known_def)
  have "b \<in> set (imports_of ma)" and "set (imports_of ma) \<inter> {a, b} \<subseteq> {b}"
    using assms(2) by blast+
  then have "dfs_loop ?M {a} (imports_of ma) 0 [] = (2, [(b, 1)])"
    using two_cycle_first_loop[OF assms(1,3), of "imports_of ma" ma] by simp
  then have "dfs ?M a {} [] = (2, [(b, 1), (a, 2)])"
    using assms(1) by (simp add: dfs.simps k)
  then show ?thesis using assms(1) by (simp add: calculate_dependency_chains_def)
qed

theorem two_cycle_depths_witness:
  "''A'' \<noteq> ''B''
   \<and> set (imports_of ((AgdaModule_init ''A'' ''A.agda'')\<lparr>imports_of := [''Prim'', ''B'']\<rparr>))
        \<inter> {''A'', ''B''} = {''B''}
   \<and> set (imports_of ((AgdaModule_init ''B'' ''B.agda'')\<lparr>imports_of := [''A'']\<rparr>))
        \<inter> {''A'', ''B''} = {''A''}
   \<and> calculate_dependency_chains
        [(''A'', (AgdaModule_init ''A'' ''A.agda'')\<lparr>imports_of := [''Prim'', ''B'']\<rparr>),
         (''B'', (AgdaModule_init ''B'' ''B.agda'')\<lparr>imports_of := [''A'']\<rparr>)]
       = [(''B'', 1), (''A'', 2)]"
proof -
  have h1: "''A'' \<noteq> ''B''" by simp
  have h2: "set (imports_of ((AgdaModule_init ''A'' ''A.agda'')\<lparr>imports_of := [''Prim'', ''B'']\<rparr>))
        \<inter> {''A'', ''B''} = {''B''}" by simp
  have h3: "set (imports_of ((AgdaModule_init ''B'' ''B.agda'')\<lparr>imports_of := [''A'']\<rparr>))
        \<inter> {''A'', ''B''} = {''A''}" by simp
  show ?thesis using h1 h2 h3 two_cycle_depths[OF h1 h2 h3] by blast
qed

text \<open>
  Claim C1 as stated fails: on the graph of \<open>A\<close> and \<open>B\<close> importing each other the depths
  on record are 2 and 1, not 0 and 0.
\<close>

theorem two_cycle_depths_counterexample:
  "chain_get (calculate_dependency_chains
      [(''A'', (AgdaModule_init ''A'' ''A.agda'')\<lparr>imports_of := [''B'']\<rparr>),
       (''B'', (AgdaModule_init ''B'' ''B.agda'')\<lparr>imports_of := [''A'']\<rparr>)]) ''A'' = 2
   \<and> chain_get (calculate_dependency_chains
      [(''A'', (AgdaModule_init ''A'' ''A.agda'')\<lparr>imports_of := [''B'']\<rparr>),
       (''B'', (AgdaModule_init ''B'' ''B.agda'')\<lparr>imports_of := [''A'']\<rparr>)]) ''B'' = 1"
  by (simp add: calculate_dependency_chains_def dfs.simps known_def chain_get_def)

subsection \<open>Every known module gets one depth\<close>

lemma sub_chain:
  "A \<subseteq> B \<and> B \<subseteq> A \<union> K \<Longrightarrow> B \<subseteq> C \<and> C \<subseteq> B \<union> K \<Longrightarrow> A \<subseteq> C \<and> C \<subseteq> A \<union> K"
  by blast

lemma sub_chain_names:
  "A \<subseteq> B \<Longrightarrow> B \<subseteq> A \<union> K \<Longrightarrow> n \<in> B \<Longrightarrow> B \<union> N \<subseteq> C \<and> C \<subseteq> B \<union> K \<Longrightarrow>
   A \<union> insert n N \<subseteq> C \<and> C \<subseteq> A \<union> K"
  by blast

lemma dfs_keys:
  "fst ` set cl \<subseteq> fst ` set (snd (dfs M n path cl))
   \<and> fst ` set (snd (dfs M n path cl)) \<subseteq> fst ` set cl \<union> known M
   \<and> (n \<in> known M \<longrightarrow> n \<notin> path \<longrightarrow> n \<in> fst ` set (snd (dfs M n path cl)))"
  and dfs_loop_keys:
  "fst ` set cl \<subseteq> fst ` set (snd (dfs_loop M path imps md cl))
   \<and> fst ` set (snd (dfs_loop M path imps md cl)) \<subseteq> fst ` set cl \<union> known M"
proof (induction M n path cl and M path imps md cl rule: dfs_dfs_loop.induct)
  case (1 M n path cl)
  show ?case
  proof (cases "map_of cl n")
    case (Some d)
    then have "n \<in> fst ` set cl" by (metis domI dom_map_of_conv_image_fst)
    then show ?thesis using Some by (simp add: dfs_memo)
  next
    case None
    show ?thesis
    proof (cases "n \<in> known M \<and> n \<notin> path")
      case False
      then show ?thesis using None by (auto simp: dfs.simps)
    next
      case True
      then obtain m where m: "map_of M n = Some m"
        by (metis known_def map_of_eq_None_iff not_Some_eq)
      obtain d cl' where r: "dfs_loop M (insert n path) (imports_of m) 0 cl = (d, cl')"
        by (cases "dfs_loop M (insert n path) (imports_of m) 0 cl")
      have res: "dfs M n path cl = (d, AList.update n d cl')"
        using None True m r by (simp add: dfs.simps)
      have "fst ` set cl \<subseteq> fst ` set cl' \<and> fst ` set cl' \<subseteq> fst ` set cl \<union> known M"
        using "1.IH"[OF None _ _ m] True r by simp
      then show ?thesis using True by (auto simp: res dom_update)
    qed
  qed
next
  case (2 M path md cl)
  show ?case by simp
next
  case (3 M path i rest md cl)
  show ?case
  proof (cases "i \<in> known M")
    case False
    then show ?thesis using "3.IH"(3) by simp
  next
    case True
    obtain d1 cl1 where r: "dfs M i path cl = (d1, cl1)" by (cases "dfs M i path cl")
    have a: "fst ` set cl \<subseteq> fst ` set cl1 \<and> fst ` set cl1 \<subseteq> fst ` set cl \<union> known M"
      using "3.IH"(1)[OF True] r by simp
    have b: "fst ` set cl1 \<subseteq> fst ` set (snd (dfs_loop M path rest (max md (d1 + 1)) cl1))
      \<and> fst ` set (snd (dfs_loop M path rest (max md (d1 + 1)) cl1)) \<subseteq> fst ` set cl1 \<union> known M"
      using "3.IH"(2)[OF True r[symmetric]] .
    have eq: "dfs_loop M path (i # rest) md cl = dfs_loop M path rest (max md (d1 + 1)) cl1"
      using True r by simp
    show ?thesis unfolding eq by (rule sub_chain[OF a b])
  qed
qed

lemma chains_loop_keys:
  "set names \<subseteq> known M \<Longrightarrow>
   fst ` set cl \<union> set names \<subseteq> fst ` set (chains_loop M names cl)
   \<and> fst ` set (chains_loop M names cl) \<subseteq> fst ` set cl \<union> known M"
proof (induction names arbitrary: cl)
  case Nil
  then show ?case by simp
next
  case (Cons n names)
  have sub: "set names \<subseteq> known M" and n: "n \<in> known M" using Cons.prems by auto
  show ?case
  proof (cases "n \<in> fst ` set cl")
    case True
    then have "chains_loop M (n # names) cl = chains_loop M names cl" by simp
    moreover have "fst ` set cl \<union> set (n # names) = fst ` set cl \<union> set names"
      using True by auto
    ultimately show ?thesis using Cons.IH[OF sub, of cl] by simp
  next
    case False
    let ?cl1 = "snd (dfs M n {} cl)"
    have k: "fst ` set cl \<subseteq> fst ` set ?cl1" "fst ` set ?cl1 \<subseteq> fst ` set cl \<union> known M"
      "n \<in> fst ` set ?cl1"
      using dfs_keys[of cl M n "{}"] n by auto
    have eq: "chains_loop M (n # names) cl = chains_loop M names ?cl1"
      using False by simp
    show ?thesis unfolding eq list.set
      by (rule sub_chain_names[OF k Cons.IH[OF sub, of ?cl1]])
  qed
qed

lemma dfs_distinct:
  "distinct (map fst cl) \<Longrightarrow> distinct (map fst (snd (dfs M n path cl)))"
  and dfs_loop_distinct:
  "distinct (map fst cl) \<Longrightarrow> distinct (map fst (snd (dfs_loop M path imps md cl)))"
proof (induction M n path cl and M path imps md cl rule: dfs_dfs_loop.induct)
  case (1 M n path cl)
  show ?case
  proof (cases "map_of cl n = None \<and> n \<in> known M \<and> n \<notin> path")
    case False
    then have "snd (dfs M n path cl) = cl"
      by (cases "map_of cl n") (auto simp: dfs.simps)
    then show ?thesis using "1.prems" by simp
  next
    case True
    then obtain m where m: "map_of M n = Some m"
      by (metis known_def map_of_eq_None_iff not_Some_eq)
    obtain d cl' where r: "dfs_loop M (insert n path) (imports_of m) 0 cl = (d, cl')"
      by (cases "dfs_loop M (insert n path) (imports_of m) 0 cl")
    have res: "dfs M n path cl = (d, AList.update n d cl')"
      using True m r by (simp add: dfs.simps)
    have "distinct (map fst cl')"
      using "1.IH"[OF _ _ _ m "1.prems"] True r by simp
    then show ?thesis by (simp add: res distinct_update)
  qed
next
  case (2 M path md cl)
  then show ?case by simp
next
  case (3 M path i rest md cl)
  show ?case
  proof (cases "i \<in> known M")
    case False
    then show ?thesis using "3.IH"(3) "3.prems" by simp
  next
    case True
    obtain d1 cl1 where r: "dfs M i path cl = (d1, cl1)" by (cases "dfs M i path cl")
    have a: "distinct (map fst cl1)"
      using "3.IH"(1)[OF True "3.prems"] r by simp
    have eq: "dfs_loop M path (i # rest) md cl = dfs_loop M path rest (max md (d1 + 1)) cl1"
      using True r by simp
    show ?thesis unfolding eq using "3.IH"(2)[OF True r[symmetric] a] .
  qed
qed

lemma chains_loop_distinct:
  "distinct (map fst cl) \<Longrightarrow> distinct (map fst (chains_loop M names cl))"
  by (induction names arbitrary: cl) (auto simp: dfs_distinct)

lemma calc_keys: "fst ` set (calculate_dependency_chains M) = known M"
proof -
  have "set (map fst M) \<subseteq> known M" by (simp add: known_def)
  from chains_loop_keys[OF this, of "[]"] show ?thesis
    unfolding calculate_dependency_chains_def by (simp add: known_def) blast
qed

lemma calc_distinct: "distinct (map fst (calculate_dependency_chains M))"
  by (simp add: calculate_dependency_chains_def chains_loop_distinct)

subsection \<open>The recursion limit\<close>















subsection \<open>Acyclic graphs: the table stays settled\<close>

lemma keys_dom: "fst ` set cl = dom (map_of cl)"
  by (simp add: dom_map_of_conv_image_fst)

lemma chain_get_mono:
  assumes "map_of cl \<subseteq>\<^sub>m map_of cl'" "i \<in> fst ` set cl"
  shows "chain_get cl' i = chain_get cl i"
proof -
  have "i \<in> dom (map_of cl)" using assms(2) by (simp only: keys_dom)
  with assms(1) have "map_of cl i = map_of cl' i" unfolding map_le_def by (rule bspec)
  then show ?thesis by (simp add: chain_get_def)
qed

lemma chain_get_map_mono:
  assumes "map_of cl \<subseteq>\<^sub>m map_of cl'" "set xs \<subseteq> fst ` set cl"
  shows "map (\<lambda>i. chain_get cl' i + 1) xs = map (\<lambda>i. chain_get cl i + 1) xs"
proof (rule map_cong[OF refl])
  fix x assume "x \<in> set xs"
  with assms(2) have "x \<in> fst ` set cl" by (rule subsetD)
  then show "chain_get cl' x + 1 = chain_get cl x + 1"
    using chain_get_mono[OF assms(1)] by simp
qed

lemma settled_mono_entry:
  assumes "settled M cl" "map_of cl \<subseteq>\<^sub>m map_of cl'" "map_of cl n = Some d"
  shows "set (resolvable_imports M n) \<subseteq> fst ` set cl'
         \<and> d = fold max (map (\<lambda>i. chain_get cl' i + 1) (resolvable_imports M n)) 0"
proof -
  note ab = assms(1)[unfolded settled_def, rule_format, OF assms(3)]
  have a: "set (resolvable_imports M n) \<subseteq> fst ` set cl" using ab by (rule conjunct1)
  have b: "d = fold max (map (\<lambda>i. chain_get cl i + 1) (resolvable_imports M n)) 0"
    using ab by (rule conjunct2)
  have "dom (map_of cl) \<subseteq> dom (map_of cl')" using assms(2) by (rule map_le_implies_dom_le)
  then have "fst ` set cl \<subseteq> fst ` set cl'" by (simp add: keys_dom)
  with a have a': "set (resolvable_imports M n) \<subseteq> fst ` set cl'" by (rule subset_trans)
  have b': "d = fold max (map (\<lambda>i. chain_get cl' i + 1) (resolvable_imports M n)) 0"
    unfolding chain_get_map_mono[OF assms(2) a] by (rule b)
  show ?thesis using a' b' by (rule conjI)
qed

lemma settled_update:
  assumes s: "settled M cl"
    and fresh: "n \<notin> fst ` set cl"
    and imps: "set (resolvable_imports M n) \<subseteq> fst ` set cl"
    and d: "d = fold max (map (\<lambda>i. chain_get cl i + 1) (resolvable_imports M n)) 0"
  shows "settled M (AList.update n d cl)"
proof -
  let ?cl' = "AList.update n d cl"
  have le: "map_of cl \<subseteq>\<^sub>m map_of ?cl'"
    using fresh unfolding keys_dom by (auto simp: update_conv' map_le_def)
  have keys: "fst ` set ?cl' = insert n (fst ` set cl)" by (simp add: dom_update)
  show ?thesis
    unfolding settled_def
  proof (intro allI impI)
    fix k e assume ke: "map_of ?cl' k = Some e"
    show "set (resolvable_imports M k) \<subseteq> fst ` set ?cl'
          \<and> e = fold max (map (\<lambda>i. chain_get ?cl' i + 1) (resolvable_imports M k)) 0"
    proof (cases "k = n")
      case True
      then have e: "e = d" using ke by (simp add: update_conv')
      have "set (resolvable_imports M n) \<subseteq> fst ` set ?cl'"
        unfolding keys using imps by (rule subset_insertI2)
      moreover have "d = fold max (map (\<lambda>i. chain_get ?cl' i + 1) (resolvable_imports M n)) 0"
        unfolding chain_get_map_mono[OF le imps] by (rule d)
      ultimately show ?thesis unfolding e True by (rule conjI)
    next
      case False
      then have "map_of cl k = Some e" using ke by (simp add: update_conv')
      from settled_mono_entry[OF s le this] show ?thesis .
    qed
  qed
qed

lemma map_le_keys: "map_of cl \<subseteq>\<^sub>m map_of cl' \<Longrightarrow> fst ` set cl \<subseteq> fst ` set cl'"
  unfolding keys_dom by (rule map_le_implies_dom_le)

lemma fresh_chain:
  "A \<subseteq> B \<Longrightarrow> B \<subseteq> C \<Longrightarrow> (B - A) \<inter> P = {} \<Longrightarrow> (C - B) \<inter> P = {} \<Longrightarrow> (C - A) \<inter> P = {}"
  by blast

lemma dfs_post_refl: "settled M cl \<Longrightarrow> dfs_post M path cl cl"
  by (simp add: dfs_post_def)

lemma dfs_post_trans:
  "dfs_post M path cl cl1 \<Longrightarrow> dfs_post M path cl1 cl2 \<Longrightarrow> dfs_post M path cl cl2"
proof -
  assume a: "dfs_post M path cl cl1" and b: "dfs_post M path cl1 cl2"
  have l1: "map_of cl \<subseteq>\<^sub>m map_of cl1" and f1: "(fst ` set cl1 - fst ` set cl) \<inter> path = {}"
    using a by (simp_all add: dfs_post_def)
  have s2: "settled M cl2" and l2: "map_of cl1 \<subseteq>\<^sub>m map_of cl2"
    and f2: "(fst ` set cl2 - fst ` set cl1) \<inter> path = {}"
    using b by (simp_all add: dfs_post_def)
  have "map_of cl \<subseteq>\<^sub>m map_of cl2" using l1 l2 by (rule map_le_trans)
  moreover have "(fst ` set cl2 - fst ` set cl) \<inter> path = {}"
    by (rule fresh_chain[OF map_le_keys[OF l1] map_le_keys[OF l2] f1 f2])
  ultimately show ?thesis using s2 by (simp add: dfs_post_def)
qed

lemma dfs_acyclic:
  assumes ac: "acyclic (import_edges M)"
  shows "settled M cl \<Longrightarrow> \<forall>p\<in>path. (p, n) \<in> (import_edges M)\<^sup>+ \<Longrightarrow>
         dfs_post M path cl (snd (dfs M n path cl))
         \<and> (n \<in> known M \<longrightarrow> map_of (snd (dfs M n path cl)) n = Some (fst (dfs M n path cl)))"
    and "settled M cl \<Longrightarrow> \<forall>i\<in>set imps. i \<in> known M \<longrightarrow> (\<forall>p\<in>path. (p, i) \<in> (import_edges M)\<^sup>+) \<Longrightarrow>
         dfs_post M path cl (snd (dfs_loop M path imps md cl))
         \<and> set [i \<leftarrow> imps. i \<in> known M] \<subseteq> fst ` set (snd (dfs_loop M path imps md cl))
         \<and> fst (dfs_loop M path imps md cl)
             = fold max (map (\<lambda>i. chain_get (snd (dfs_loop M path imps md cl)) i + 1)
                              [i \<leftarrow> imps. i \<in> known M]) md"
  using ac
proof (induction M n path cl and M path imps md cl rule: dfs_dfs_loop.induct)
  case (1 M n path cl)
  show ?case
  proof (cases "map_of cl n")
    case (Some d)
    then show ?thesis using "1.prems"(1) by (simp add: dfs_memo dfs_post_refl)
  next
    case None
    show ?thesis
    proof (cases "n \<in> known M")
      case False
      then show ?thesis using None "1.prems"(1) by (simp add: dfs.simps dfs_post_refl)
    next
      case True
      have notpath: "n \<notin> path"
      proof
        assume "n \<in> path"
        then have "(n, n) \<in> (import_edges M)\<^sup>+" using "1.prems"(2) by blast
        then show False using "1.prems"(3) by (simp add: acyclic_def)
      qed
      obtain m where m: "map_of M n = Some m"
        using True by (metis known_def map_of_eq_None_iff not_Some_eq)
      have ri: "resolvable_imports M n = [i \<leftarrow> imports_of m. i \<in> known M]"
        by (simp add: resolvable_imports_def m)
      obtain d cl' where r: "dfs_loop M (insert n path) (imports_of m) 0 cl = (d, cl')"
        by (cases "dfs_loop M (insert n path) (imports_of m) 0 cl")
      have res: "dfs M n path cl = (d, AList.update n d cl')"
        using None True notpath m r by (simp add: dfs.simps)
      have pre: "\<forall>i\<in>set (imports_of m). i \<in> known M \<longrightarrow>
                   (\<forall>p\<in>insert n path. (p, i) \<in> (import_edges M)\<^sup>+)"
      proof (intro ballI impI)
        fix i p assume i: "i \<in> set (imports_of m)" "i \<in> known M" and p: "p \<in> insert n path"
        have e: "(n, i) \<in> import_edges M" using i by (simp add: import_edges_def ri)
        show "(p, i) \<in> (import_edges M)\<^sup>+"
        proof (cases "p = n")
          case True
          then show ?thesis using e by blast
        next
          case False
          then have "(p, n) \<in> (import_edges M)\<^sup>+" using p "1.prems"(2) by blast
          then show ?thesis using e by (rule trancl_into_trancl)
        qed
      qed
      have ih: "dfs_post M (insert n path) cl cl'
         \<and> set [i \<leftarrow> imports_of m. i \<in> known M] \<subseteq> fst ` set cl'
         \<and> d = fold max (map (\<lambda>i. chain_get cl' i + 1) [i \<leftarrow> imports_of m. i \<in> known M]) 0"
        using "1.IH"[OF None _ notpath m "1.prems"(1) pre "1.prems"(3)] True r by simp
      have fresh: "n \<notin> fst ` set cl'"
      proof -
        have "n \<notin> fst ` set cl" using None by (simp add: keys_dom domIff)
        moreover have "(fst ` set cl' - fst ` set cl) \<inter> insert n path = {}"
          using ih by (simp add: dfs_post_def)
        ultimately show ?thesis by blast
      qed
      have s': "settled M (AList.update n d cl')"
        using ih fresh by (intro settled_update) (simp_all add: dfs_post_def ri)
      have le': "map_of cl' \<subseteq>\<^sub>m map_of (AList.update n d cl')"
        using fresh unfolding keys_dom by (auto simp: update_conv' map_le_def)
      have "dfs_post M path cl' (AList.update n d cl')"
        unfolding dfs_post_def using s' le' notpath by (auto simp: dom_update)
      moreover have "dfs_post M path cl cl'"
        using ih unfolding dfs_post_def by blast
      ultimately have "dfs_post M path cl (AList.update n d cl')"
        using dfs_post_trans by blast
      then show ?thesis by (simp add: res update_conv')
    qed
  qed
next
  case (2 M path md cl)
  then show ?case by (simp add: dfs_post_refl)
next
  case (3 M path i rest md cl)
  show ?case
  proof (cases "i \<in> known M")
    case False
    have "\<forall>j\<in>set rest. j \<in> known M \<longrightarrow> (\<forall>p\<in>path. (p, j) \<in> (import_edges M)\<^sup>+)"
      using "3.prems"(2) by simp
    from "3.IH"(3)[OF False "3.prems"(1) this "3.prems"(3)] show ?thesis using False by simp
  next
    case True
    obtain d1 cl1 where r: "dfs M i path cl = (d1, cl1)" by (cases "dfs M i path cl")
    have eq: "dfs_loop M path (i # rest) md cl = dfs_loop M path rest (max md (d1 + 1)) cl1"
      using True r by simp
    have "\<forall>p\<in>path. (p, i) \<in> (import_edges M)\<^sup>+" using "3.prems"(2) True by simp
    from "3.IH"(1)[OF True "3.prems"(1) this "3.prems"(3)]
    have a: "dfs_post M path cl cl1" and ai: "map_of cl1 i = Some d1"
      using r True by simp_all
    have rest: "\<forall>j\<in>set rest. j \<in> known M \<longrightarrow> (\<forall>p\<in>path. (p, j) \<in> (import_edges M)\<^sup>+)"
      using "3.prems"(2) by simp
    have s1: "settled M cl1" using a by (simp add: dfs_post_def)
    let ?r = "dfs_loop M path rest (max md (d1 + 1)) cl1"
    from "3.IH"(2)[OF True r[symmetric] s1 rest "3.prems"(3)]
    have b: "dfs_post M path cl1 (snd ?r)"
      and bk: "set [j \<leftarrow> rest. j \<in> known M] \<subseteq> fst ` set (snd ?r)"
      and bd: "fst ?r = fold max (map (\<lambda>j. chain_get (snd ?r) j + 1) [j \<leftarrow> rest. j \<in> known M])
                          (max md (d1 + 1))"
      by simp_all
    have le: "map_of cl1 \<subseteq>\<^sub>m map_of (snd ?r)" using b by (simp add: dfs_post_def)
    have i1: "i \<in> fst ` set cl1" using ai by (simp add: keys_dom domI)
    have gi: "chain_get (snd ?r) i = d1"
      using chain_get_mono[OF le i1] ai by (simp add: chain_get_def)
    have ik: "i \<in> fst ` set (snd ?r)" using map_le_keys[OF le] i1 by blast
    have p1: "dfs_post M path cl (snd ?r)" using a b by (rule dfs_post_trans)
    have p2: "set [j \<leftarrow> i # rest. j \<in> known M] \<subseteq> fst ` set (snd ?r)"
      using True bk ik by simp
    have p3: "fst ?r = fold max (map (\<lambda>j. chain_get (snd ?r) j + 1) [j \<leftarrow> i # rest. j \<in> known M]) md"
      using True bd gi by (simp add: max.commute)
    show ?thesis unfolding eq using p1 p2 p3 by blast
  qed
qed

lemma settled_Nil: "settled M []"
  by (simp add: settled_def)

lemma chains_loop_settled:
  assumes "acyclic (import_edges M)"
  shows "settled M cl \<Longrightarrow> settled M (chains_loop M names cl)"
proof (induction names arbitrary: cl)
  case Nil
  then show ?case by simp
next
  case (Cons n names)
  have "dfs_post M {} cl (snd (dfs M n {} cl))"
    using dfs_acyclic(1)[OF assms Cons.prems, of "{}" n] by simp
  then have "settled M (snd (dfs M n {} cl))" by (simp add: dfs_post_def)
  then show ?case using Cons by simp
qed

lemma calc_settled:
  "acyclic (import_edges M) \<Longrightarrow> settled M (calculate_dependency_chains M)"
  unfolding calculate_dependency_chains_def by (rule chains_loop_settled[OF _ settled_Nil])

lemma fold_max_depth:
  "fold max (map (\<lambda>i. f i + 1) xs) (0::nat) = (if xs = [] then 0 else 1 + Max (f ` set xs))"
proof (cases "xs = []")
  case True
  then show ?thesis by simp
next
  case False
  let ?ys = "map (\<lambda>i. f i + 1) xs"
  have ne: "set ?ys \<noteq> {}" using False by simp
  have "fold max ?ys 0 = Max (set (0 # ?ys))" by (rule Max.set_eq_fold[symmetric])
  also have "\<dots> = max 0 (Max (set ?ys))" using ne by (simp only: list.set Max_insert[OF finite_set ne])
  also have "\<dots> = Max ((\<lambda>i. f i + 1) ` set xs)" by simp
  also have "\<dots> = Max (f ` set xs) + 1"
    using False by (intro Max_add_commute) simp_all
  finally show ?thesis using False by simp
qed

lemma linear_chain_eval:
  "calculate_dependency_chains linear_chain = [(''D'', 0), (''C'', 1), (''B'', 2), (''A'', 3)]"
  by (simp add: linear_chain_def calculate_dependency_chains_def dfs.simps known_def
      AgdaModule_init_def)

lemma fan_graph_eval:
  "calculate_dependency_chains fan_graph =
     [(''P0'', 0), (''P1'', 1), (''P2'', 2), (''P3'', 3), (''P4'', 4), (''P5'', 5), (''X'', 6)]"
  by (simp add: fan_graph_def calculate_dependency_chains_def dfs.simps known_def
      AgdaModule_init_def)

lemma fan_graph_acyclic: "acyclic (import_edges fan_graph)"
proof (rule acyclicI_order[where f = "chain_get (calculate_dependency_chains fan_graph)"])
  fix a b assume "(a, b) \<in> import_edges fan_graph"
  then show "chain_get (calculate_dependency_chains fan_graph) b
           < chain_get (calculate_dependency_chains fan_graph) a"
    unfolding fan_graph_eval
    by (auto simp: import_edges_def resolvable_imports_def fan_graph_def known_def chain_get_def
             AgdaModule_init_def split: if_splits)
qed

text \<open>
  Claim C5. On an acyclic graph the depth on record for a known module \<open>m\<close> is 0 when \<open>m\<close>
  has no resolvable import, and otherwise 1 plus the greatest depth on record among its
  resolvable imports; so a module whose resolvable imports have the depths 0, 2 and 5 has
  depth 6. On the chain \<open>A \<rightarrow> B \<rightarrow> C \<rightarrow> D\<close> the depths of \<open>D\<close>, \<open>C\<close>, \<open>B\<close>, \<open>A\<close> are
  0, 1, 2, 3.
\<close>

theorem acyclic_depth:
  assumes "acyclic (import_edges M)" and "m \<in> known M"
  shows "chain_get (calculate_dependency_chains M) m =
           (if resolvable_imports M m = [] then 0
            else 1 + Max (chain_get (calculate_dependency_chains M) ` set (resolvable_imports M m)))
         \<and> (chain_get (calculate_dependency_chains M) ` set (resolvable_imports M m) = {0, 2, 5}
              \<longrightarrow> chain_get (calculate_dependency_chains M) m = 6)
         \<and> chain_get (calculate_dependency_chains linear_chain) ''D'' = 0
         \<and> chain_get (calculate_dependency_chains linear_chain) ''C'' = 1
         \<and> chain_get (calculate_dependency_chains linear_chain) ''B'' = 2
         \<and> chain_get (calculate_dependency_chains linear_chain) ''A'' = 3"
proof -
  let ?cl = "calculate_dependency_chains M"
  have "m \<in> fst ` set ?cl" using assms(2) by (simp only: calc_keys)
  then obtain d where d: "map_of ?cl m = Some d"
    unfolding keys_dom by blast
  note e = calc_settled[OF assms(1), unfolded settled_def, rule_format, OF d, THEN conjunct2]
  have g: "chain_get ?cl m = d" using d by (simp add: chain_get_def)
  have rec: "chain_get ?cl m = (if resolvable_imports M m = [] then 0
            else 1 + Max (chain_get ?cl ` set (resolvable_imports M m)))"
    unfolding g e by (rule fold_max_depth)
  have six: "chain_get ?cl m = 6" if "chain_get ?cl ` set (resolvable_imports M m) = {0, 2, 5}"
  proof -
    have "resolvable_imports M m \<noteq> []" using that by auto
    then show ?thesis using rec that by simp
  qed
  have chain: "chain_get (calculate_dependency_chains linear_chain) ''D'' = 0
         \<and> chain_get (calculate_dependency_chains linear_chain) ''C'' = 1
         \<and> chain_get (calculate_dependency_chains linear_chain) ''B'' = 2
         \<and> chain_get (calculate_dependency_chains linear_chain) ''A'' = 3"
    by (simp add: linear_chain_eval chain_get_def)
  show ?thesis using rec six chain by blast
qed

theorem acyclic_depth_witness:
  "acyclic (import_edges fan_graph) \<and> ''X'' \<in> known fan_graph
   \<and> chain_get (calculate_dependency_chains fan_graph) ` set (resolvable_imports fan_graph ''X'')
       = {0, 2, 5}
   \<and> chain_get (calculate_dependency_chains fan_graph) ''X'' = 6"
proof -
  have h1: "acyclic (import_edges fan_graph)" by (rule fan_graph_acyclic)
  have h2: "''X'' \<in> known fan_graph" by (simp add: fan_graph_def known_def)
  have h3: "chain_get (calculate_dependency_chains fan_graph) ` set (resolvable_imports fan_graph ''X'')
       = {0, 2, 5}"
    unfolding fan_graph_eval
    by (simp add: resolvable_imports_def fan_graph_def known_def chain_get_def AgdaModule_init_def)
  from acyclic_depth[OF h1 h2] h3
  have "chain_get (calculate_dependency_chains fan_graph) ''X'' = 6" by blast
  with h1 h2 h3 show ?thesis by blast
qed

section \<open>The example files, evaluated\<close>

lemmas rx_defs = rx_seq_def rx_opt_def rx_lit_def rx_plus_def rx_group_def rx_end_def
  is_space_def is_word_def newline_def

lemmas parse_defs = parse_imports_def parse_line_def import_pattern_def public_at_def
  strip_def startswith_def set_add_def Let_def

lemma example_analyzer_eval:
  "example_analyzer =
     \<lparr>modules =
        [(''Cat'', \<lparr>name = ''Cat'', filepath = ''Cat.agda'',
                    imports_of = [''Base'', ''Prim'', ''Ext''],
                    public_imports = [''Base''], is_literate = False\<rparr>),
         (''Base'', \<lparr>name = ''Base'', filepath = ''Base.lagda.md'', imports_of = [''Prim''],
                     public_imports = [], is_literate = True\<rparr>),
         (''Prim'', \<lparr>name = ''Prim'', filepath = ''Prim.agda'', imports_of = [],
                     public_imports = [], is_literate = False\<rparr>)],
      reverse_deps = [(''Base'', {''Cat''}), (''Prim'', {''Base'', ''Cat''}), (''Ext'', {''Cat''})]\<rparr>"
  by (simp add: example_analyzer_def example_files_def scan_modules_def scan_file_def
      build_reverse_deps_def rd_add_def rd_get_def DependencyAnalyzer_init_def parse_defs rx_defs
      AgdaModule_init_def endswith_def insert_commute)

lemma example_foundational:
  "find_foundational_modules example_analyzer limit =
     slice_to limit [(''Prim'', 0), (''Base'', 1), (''Cat'', 2)]"
  by (simp add: find_foundational_modules_def modules_by_import_count_def internal_imports_def
      known_def example_analyzer_eval numeral_2_eq_2)

section \<open>Properties of the rankings\<close>

lemma slice_to_nonneg: "0 \<le> limit \<Longrightarrow> slice_to limit xs = take (nat limit) xs"
  by (simp add: slice_to_def)

lemma slice_to_take: "\<exists>j. slice_to limit xs = take j xs"
  unfolding slice_to_def by (cases "limit < 0") auto

lemma set_slice_to: "set (slice_to limit xs) \<subseteq> set xs"
  using slice_to_take[of limit xs] by (auto dest: in_set_takeD)

lemma sort_reverse_set: "set (sort_reverse f xs) = set xs"
  by (simp add: sort_reverse_def)

lemma sort_reverse_distinct: "distinct (sort_reverse f xs) = distinct xs"
  by (simp add: sort_reverse_def)

lemma sort_reverse_stable:
  "filter (\<lambda>y. f y = k) (sort_reverse f xs) = filter (\<lambda>y. f y = k) xs"
proof -
  have "filter (\<lambda>y. f y = k) (sort_reverse f xs) = rev (filter (\<lambda>y. f y = k) (sort_key f (rev xs)))"
    by (simp add: sort_reverse_def rev_filter)
  also have "\<dots> = rev (filter (\<lambda>y. f y = k) (rev xs))" by (simp only: sort_key_stable)
  also have "\<dots> = filter (\<lambda>y. f y = k) xs" by (simp add: rev_filter)
  finally show ?thesis .
qed

lemma sort_reverse_sorted: "sorted (rev (map f (sort_reverse f xs)))"
  by (simp add: sort_reverse_def rev_map)

lemma import_count_entry:
  "e \<in> set (modules_by_import_count st) \<Longrightarrow>
   \<exists>module. (fst e, module) \<in> set (modules st)
     \<and> snd e = length [imp \<leftarrow> imports_of module. imp \<in> known (modules st)]"
  by (auto simp: modules_by_import_count_def internal_imports_def)

text \<open>
  Claim C9, for a limit that is not negative. \<^verbatim>\<open>find_foundational_modules\<close> returns
  \<open>min L n\<close> entries, \<open>n\<close> the number of modules; each entry is a module's name with the
  number of its imports that are known modules; the counts ascend; entries of equal count
  stand in the order of discovery, as a prefix of the modules of that count.
\<close>

theorem foundational_ranking:
  assumes "0 \<le> L"
  shows "int (length (find_foundational_modules st L)) = min L (int (length (modules st)))
    \<and> (\<forall>e \<in> set (find_foundational_modules st L).
          \<exists>module. (fst e, module) \<in> set (modules st)
            \<and> snd e = length [imp \<leftarrow> imports_of module. imp \<in> known (modules st)])
    \<and> sorted (map snd (find_foundational_modules st L))
    \<and> (\<forall>k. prefix (filter (\<lambda>e. snd e = k) (find_foundational_modules st L))
                    (filter (\<lambda>e. snd e = k) (modules_by_import_count st)))"
proof -
  let ?es = "modules_by_import_count st"
  have R: "find_foundational_modules st L = take (nat L) (sort_key snd ?es)"
    using assms by (simp add: find_foundational_modules_def slice_to_nonneg)
  have len: "int (length (find_foundational_modules st L)) = min L (int (length (modules st)))"
    using assms unfolding R by (auto simp: modules_by_import_count_def min_def)
  have ent: "\<forall>e \<in> set (find_foundational_modules st L).
          \<exists>module. (fst e, module) \<in> set (modules st)
            \<and> snd e = length [imp \<leftarrow> imports_of module. imp \<in> known (modules st)]"
  proof
    fix e assume "e \<in> set (find_foundational_modules st L)"
    then have "e \<in> set (sort_key snd ?es)" unfolding R by (rule in_set_takeD)
    then have "e \<in> set ?es" by simp
    then show "\<exists>module. (fst e, module) \<in> set (modules st)
            \<and> snd e = length [imp \<leftarrow> imports_of module. imp \<in> known (modules st)]"
      by (rule import_count_entry)
  qed
  have srt: "sorted (map snd (find_foundational_modules st L))"
    unfolding R take_map[symmetric] by (rule sorted_wrt_take) (rule sorted_sort_key)
  have tie: "prefix (filter (\<lambda>e. snd e = k) (find_foundational_modules st L))
                    (filter (\<lambda>e. snd e = k) ?es)" for k
  proof -
    have "prefix (filter (\<lambda>e. snd e = k) (take (nat L) (sort_key snd ?es)))
                 (filter (\<lambda>e. snd e = k) (sort_key snd ?es))"
      by (rule filter_mono_prefix) (rule take_is_prefix)
    then show ?thesis unfolding R by (simp only: sort_key_stable)
  qed
  show ?thesis using len ent srt tie by blast
qed

theorem foundational_ranking_witness:
  "(0::int) \<le> 2
   \<and> find_foundational_modules example_analyzer 2 = [(''Prim'', 0), (''Base'', 1)]
   \<and> int (length (find_foundational_modules example_analyzer 2))
       = min 2 (int (length (modules example_analyzer)))
   \<and> sorted (map snd (find_foundational_modules example_analyzer 2))"
proof -
  have h: "(0::int) \<le> 2" by simp
  have e: "find_foundational_modules example_analyzer 2 = [(''Prim'', 0), (''Base'', 1)]"
    by (simp add: example_foundational slice_to_def)
  from foundational_ranking[OF h, of example_analyzer]
  have "int (length (find_foundational_modules example_analyzer 2))
       = min 2 (int (length (modules example_analyzer)))"
    and "sorted (map snd (find_foundational_modules example_analyzer 2))"
    by blast+
  with h e show ?thesis by blast
qed

text \<open>
  Claim C9 as stated, for every limit, fails at a negative one: \<^verbatim>\<open>[:limit]\<close> then drops
  entries from the end. With three modules and limit \<open>-1\<close> two entries come back, and
  \<open>min (-1) 3\<close> is \<open>-1\<close>.
\<close>

theorem foundational_ranking_counterexample:
  "length (modules example_analyzer) = 3
   \<and> find_foundational_modules example_analyzer (- 1) = [(''Prim'', 0), (''Base'', 1)]
   \<and> int (length (find_foundational_modules example_analyzer (- 1)))
       \<noteq> min (- 1) (int (length (modules example_analyzer)))"
  by (simp add: example_foundational slice_to_def) (simp add: example_analyzer_eval)

text \<open>
  Claim C10. Every name in the output of the hub ranking and of the foundational ranking
  is a key of \<^verbatim>\<open>modules\<close>, for every limit and whatever \<^verbatim>\<open>reverse_deps\<close> holds: both
  rankings run over the keys of \<^verbatim>\<open>modules\<close> and only look names up in \<^verbatim>\<open>reverse_deps\<close>.
\<close>

theorem ranked_names_known:
  "fst ` set (find_hub_modules st L) \<subseteq> known (modules st)
   \<and> fst ` set (find_foundational_modules st L) \<subseteq> known (modules st)"
proof -
  have "set (find_hub_modules st L) \<subseteq> set (modules_by_dependent_count st)"
    unfolding find_hub_modules_def
    using set_slice_to[of L "sort_reverse snd (modules_by_dependent_count st)"]
    by (simp only: sort_reverse_set)
  moreover have "fst ` set (modules_by_dependent_count st) = known (modules st)"
    by (force simp: modules_by_dependent_count_def known_def)
  moreover have "set (find_foundational_modules st L) \<subseteq> set (modules_by_import_count st)"
    unfolding find_foundational_modules_def
    using set_slice_to[of L "sort_key snd (modules_by_import_count st)"] by (simp only: set_sort)
  moreover have "fst ` set (modules_by_import_count st) = known (modules st)"
    by (force simp: modules_by_import_count_def known_def)
  ultimately show ?thesis by (metis image_mono)
qed

theorem ranked_names_known_witness:
  "''Ext'' \<in> fst ` set (reverse_deps example_analyzer)
   \<and> ''Ext'' \<notin> known (modules example_analyzer)
   \<and> fst ` set (find_hub_modules example_analyzer 5) \<subseteq> known (modules example_analyzer)
   \<and> fst ` set (find_foundational_modules example_analyzer 5) \<subseteq> known (modules example_analyzer)"
proof -
  have "''Ext'' \<in> fst ` set (reverse_deps example_analyzer)"
    and "''Ext'' \<notin> known (modules example_analyzer)"
    by (simp_all add: example_analyzer_eval known_def)
  with ranked_names_known[of example_analyzer 5] show ?thesis by (intro conjI) simp_all
qed

section \<open>Properties of the graph construction\<close>

lemma rd_get_add:
  "rd_get (rd_add i n rd) k = (if k = i then insert n (rd_get rd i) else rd_get rd k)"
  by (simp add: rd_add_def rd_get_def update_conv')

lemma rd_keys_add: "fst ` set (rd_add i n rd) = insert i (fst ` set rd)"
  by (simp add: rd_add_def dom_update)

lemma rd_get_fold_add:
  "rd_get (fold (\<lambda>i rd2. rd_add i n rd2) imps rd) k =
     (if k \<in> set imps then insert n (rd_get rd k) else rd_get rd k)"
  by (induction imps arbitrary: rd) (auto simp: rd_get_add)

lemma rd_keys_fold_add:
  "fst ` set (fold (\<lambda>i rd2. rd_add i n rd2) imps rd) = set imps \<union> fst ` set rd"
  by (induction imps arbitrary: rd) (auto simp: rd_keys_add)

lemma rd_get_build:
  "rd_get (build_reverse_deps mods rd) k =
     rd_get rd k \<union> {n. \<exists>m. (n, m) \<in> set mods \<and> k \<in> set (imports_of m)}"
  unfolding build_reverse_deps_def
proof (induction mods arbitrary: rd)
  case Nil
  then show ?case by simp
next
  case (Cons p mods)
  obtain n m where p: "p = (n, m)" by (cases p)
  show ?case unfolding p by (auto simp: Cons.IH rd_get_fold_add)
qed

lemma rd_keys_build:
  "fst ` set (build_reverse_deps mods rd) =
     fst ` set rd \<union> {k. \<exists>n m. (n, m) \<in> set mods \<and> k \<in> set (imports_of m)}"
  unfolding build_reverse_deps_def
proof (induction mods arbitrary: rd)
  case Nil
  then show ?case by simp
next
  case (Cons p mods)
  obtain n m where p: "p = (n, m)" by (cases p)
  show ?case unfolding p by (auto simp: Cons.IH rd_keys_fold_add)
qed

lemma scan_modules_fields:
  "modules (scan_modules st files) = fold (\<lambda>f m. scan_file m f) files (modules st)"
  "reverse_deps (scan_modules st files)
     = build_reverse_deps (modules (scan_modules st files)) (reverse_deps st)"
  by (simp_all add: scan_modules_def Let_def)

text \<open>
  Claim C6. After \<^verbatim>\<open>scan_modules\<close>, from any state and on any files: for every item
  \<open>(n, m)\<close> of \<^verbatim>\<open>modules\<close> and every import \<open>i\<close> of \<open>m\<close> that is a key of \<^verbatim>\<open>modules\<close>,
  \<open>n\<close> is in \<^verbatim>\<open>reverse_deps[i]\<close>.
\<close>

theorem reverse_edge_recorded:
  assumes "(n, m) \<in> set (modules (scan_modules st files))"
    and "i \<in> set (imports_of m)"
    and "i \<in> known (modules (scan_modules st files))"
  shows "n \<in> rd_get (reverse_deps (scan_modules st files)) i"
  using assms(1,2) unfolding scan_modules_fields(2) rd_get_build by blast

theorem reverse_edge_recorded_witness:
  "(''Cat'', \<lparr>name = ''Cat'', filepath = ''Cat.agda'', imports_of = [''Base'', ''Prim'', ''Ext''],
            public_imports = [''Base''], is_literate = False\<rparr>)
     \<in> set (modules (scan_modules DependencyAnalyzer_init example_files))
   \<and> ''Base'' \<in> set (imports_of \<lparr>name = ''Cat'', filepath = ''Cat.agda'',
            imports_of = [''Base'', ''Prim'', ''Ext''], public_imports = [''Base''],
            is_literate = False\<rparr>)
   \<and> ''Base'' \<in> known (modules (scan_modules DependencyAnalyzer_init example_files))
   \<and> ''Cat'' \<in> rd_get (reverse_deps (scan_modules DependencyAnalyzer_init example_files)) ''Base''"
proof -
  let ?m = "\<lparr>name = ''Cat'', filepath = ''Cat.agda'', imports_of = [''Base'', ''Prim'', ''Ext''],
            public_imports = [''Base''], is_literate = False\<rparr>"
  have h1: "(''Cat'', ?m) \<in> set (modules (scan_modules DependencyAnalyzer_init example_files))"
    by (simp add: example_analyzer_eval[unfolded example_analyzer_def])
  have h2: "''Base'' \<in> set (imports_of ?m)" by simp
  have h3: "''Base'' \<in> known (modules (scan_modules DependencyAnalyzer_init example_files))"
    by (simp add: example_analyzer_eval[unfolded example_analyzer_def] known_def)
  from reverse_edge_recorded[OF h1 h2 h3] h1 h2 h3 show ?thesis by blast
qed

lemma internal_imports_removeAll:
  assumes "i \<notin> known M"
  shows "internal_imports M (m\<lparr>imports_of := removeAll i (imports_of m)\<rparr>) = internal_imports M m"
proof -
  have "[imp \<leftarrow> removeAll i xs. imp \<in> known M] = [imp \<leftarrow> xs. imp \<in> known M]" for xs
    using assms by (induction xs) auto
  then show ?thesis by (simp add: internal_imports_def)
qed

lemma full_foundational_set:
  "set (find_foundational_modules st (int (length (modules st)))) = set (modules_by_import_count st)"
  by (simp add: find_foundational_modules_def slice_to_def modules_by_import_count_def)

text \<open>
  Claim C2, as the code has it. Let \<open>(n, m)\<close> be an item of \<^verbatim>\<open>modules\<close> after
  \<^verbatim>\<open>scan_modules\<close> and \<open>i\<close> an import of \<open>m\<close> that is no key of \<^verbatim>\<open>modules\<close> (the pass over
  \<^verbatim>\<open>modules\<close> that fills \<^verbatim>\<open>reverse_deps\<close> leaves the modules and their imports as they
  are). Then \<^verbatim>\<open>reverse_deps\<close> has a key \<open>i\<close> and \<open>n\<close> is in \<^verbatim>\<open>reverse_deps[i]\<close>: line 65
  does not test whether the imported name is known. The import does not count towards the
  internal import count: the count is the same with \<open>i\<close> taken out of the imports, and
  that is the count the foundational ranking reports for \<open>n\<close>.
\<close>

theorem dangling_import:
  assumes "(n, m) \<in> set (modules (scan_modules st files))"
    and "i \<in> set (imports_of m)"
    and "i \<notin> known (modules (scan_modules st files))"
  shows "n \<in> rd_get (reverse_deps (scan_modules st files)) i
    \<and> i \<in> fst ` set (reverse_deps (scan_modules st files))
    \<and> internal_imports (modules (scan_modules st files)) m
        = internal_imports (modules (scan_modules st files))
            (m\<lparr>imports_of := removeAll i (imports_of m)\<rparr>)
    \<and> (n, internal_imports (modules (scan_modules st files))
              (m\<lparr>imports_of := removeAll i (imports_of m)\<rparr>))
        \<in> set (find_foundational_modules (scan_modules st files)
                 (int (length (modules (scan_modules st files)))))"
proof -
  let ?st = "scan_modules st files"
  have a: "n \<in> rd_get (reverse_deps ?st) i"
    using assms(1,2) unfolding scan_modules_fields(2) rd_get_build by blast
  have b: "i \<in> fst ` set (reverse_deps ?st)"
    using assms(1,2) unfolding scan_modules_fields(2) rd_keys_build by blast
  have c: "internal_imports (modules ?st) m
        = internal_imports (modules ?st) (m\<lparr>imports_of := removeAll i (imports_of m)\<rparr>)"
    by (rule internal_imports_removeAll[OF assms(3), symmetric])
  have "(n, internal_imports (modules ?st) m) \<in> set (modules_by_import_count ?st)"
    using assms(1) by (force simp: modules_by_import_count_def)
  then have d: "(n, internal_imports (modules ?st) (m\<lparr>imports_of := removeAll i (imports_of m)\<rparr>))
        \<in> set (find_foundational_modules ?st (int (length (modules ?st))))"
    unfolding full_foundational_set c[symmetric] .
  show ?thesis using a b c d by (intro conjI)
qed

theorem dangling_import_witness:
  "(''Cat'', \<lparr>name = ''Cat'', filepath = ''Cat.agda'', imports_of = [''Base'', ''Prim'', ''Ext''],
            public_imports = [''Base''], is_literate = False\<rparr>)
     \<in> set (modules (scan_modules DependencyAnalyzer_init example_files))
   \<and> ''Ext'' \<in> set (imports_of \<lparr>name = ''Cat'', filepath = ''Cat.agda'',
            imports_of = [''Base'', ''Prim'', ''Ext''], public_imports = [''Base''],
            is_literate = False\<rparr>)
   \<and> ''Ext'' \<notin> known (modules (scan_modules DependencyAnalyzer_init example_files))
   \<and> ''Cat'' \<in> rd_get (reverse_deps (scan_modules DependencyAnalyzer_init example_files)) ''Ext''
   \<and> ''Ext'' \<in> fst ` set (reverse_deps (scan_modules DependencyAnalyzer_init example_files))"
proof -
  let ?m = "\<lparr>name = ''Cat'', filepath = ''Cat.agda'', imports_of = [''Base'', ''Prim'', ''Ext''],
            public_imports = [''Base''], is_literate = False\<rparr>"
  have h1: "(''Cat'', ?m) \<in> set (modules (scan_modules DependencyAnalyzer_init example_files))"
    by (simp add: example_analyzer_eval[unfolded example_analyzer_def])
  have h2: "''Ext'' \<in> set (imports_of ?m)" by simp
  have h3: "''Ext'' \<notin> known (modules (scan_modules DependencyAnalyzer_init example_files))"
    by (simp add: example_analyzer_eval[unfolded example_analyzer_def] known_def)
  from dangling_import[OF h1 h2 h3] h1 h2 h3 show ?thesis by blast
qed

text \<open>
  Claim C2 as stated fails: after scanning the example files, \<open>Ext\<close> is an import of
  \<open>Cat\<close> and no module, and \<open>Cat\<close> is in \<^verbatim>\<open>reverse_deps['Ext']\<close>.
\<close>

theorem dangling_import_counterexample:
  "map_of (modules example_analyzer) ''Cat''
     = Some \<lparr>name = ''Cat'', filepath = ''Cat.agda'', imports_of = [''Base'', ''Prim'', ''Ext''],
            public_imports = [''Base''], is_literate = False\<rparr>
   \<and> ''Ext'' \<notin> known (modules example_analyzer)
   \<and> map_of (reverse_deps example_analyzer) ''Ext'' = Some {''Cat''}"
  by (simp add: example_analyzer_eval known_def)

section \<open>Properties of the import extractor\<close>

lemma rx_star_split:
  "r \<in> set (rx_star p s) \<Longrightarrow> \<exists>c. s = c @ r \<and> (\<forall>ch\<in>set c. p ch)"
proof (induction s)
  case Nil
  then show ?case by simp
next
  case (Cons a s)
  show ?case
  proof (cases "r = a # s")
    case True
    then show ?thesis by simp
  next
    case False
    then have pa: "p a" and "r \<in> set (rx_star p s)"
      using Cons.prems by (auto split: if_splits)
    then obtain c where "s = c @ r" "\<forall>ch\<in>set c. p ch" using Cons.IH by blast
    then have "a # s = (a # c) @ r \<and> (\<forall>ch\<in>set (a # c). p ch)" using pa by simp
    then show ?thesis by blast
  qed
qed

lemma rx_plus_split:
  "r \<in> set (rx_plus p s) \<Longrightarrow> \<exists>c. s = c @ r \<and> c \<noteq> [] \<and> (\<forall>ch\<in>set c. p ch)"
proof (cases s)
  case Nil
  assume "r \<in> set (rx_plus p s)"
  then show ?thesis using Nil by (simp add: rx_plus_def)
next
  case (Cons a t)
  assume "r \<in> set (rx_plus p s)"
  then have pa: "p a" and "r \<in> set (rx_star p t)"
    using Cons by (auto simp: rx_plus_def split: if_splits)
  then obtain c where "t = c @ r" "\<forall>ch\<in>set c. p ch" using rx_star_split by blast
  then have "s = (a # c) @ r \<and> a # c \<noteq> [] \<and> (\<forall>ch\<in>set (a # c). p ch)"
    using pa Cons by simp
  then show ?thesis by blast
qed

lemma rx_group_plus:
  assumes "(c, r) \<in> set (rx_group (rx_plus p) s)"
  shows "c \<noteq> [] \<and> (\<forall>ch\<in>set c. p ch)"
proof -
  have r: "r \<in> set (rx_plus p s)" and c: "c = take (length s - length r) s"
    using assms by (auto simp: rx_group_def)
  obtain c' where "s = c' @ r" "c' \<noteq> []" "\<forall>ch\<in>set c'. p ch"
    using rx_plus_split[OF r] by blast
  then show ?thesis using c by simp
qed

lemma import_pattern_captured:
  assumes "import_pattern line = Some c"
  shows "c \<noteq> [] \<and> (\<forall>ch\<in>set c. is_word ch \<or> ch = CHR ''.'')"
proof -
  let ?p = "\<lambda>ch. is_word ch \<or> ch = CHR ''.''"
  let ?ms = "[captured.
              r1 \<leftarrow> rx_seq (rx_star is_space)
                     (rx_seq (rx_opt (rx_seq (rx_lit ''open'') (rx_plus is_space)))
                        (rx_seq (rx_lit ''import'') (rx_plus is_space))) line,
              (captured, r2) \<leftarrow> rx_group (rx_plus ?p) r1,
              r3 \<leftarrow> rx_opt (rx_seq (rx_plus is_space) (rx_star (\<lambda>c. c \<noteq> newline))) r2,
              rx_end r3]"
  have "c \<in> set ?ms"
    using assms unfolding import_pattern_def by (cases ?ms) simp_all
  then obtain r1 r2 where "(c, r2) \<in> set (rx_group (rx_plus ?p) r1)"
    by (auto split: if_splits)
  then show ?thesis by (rule rx_group_plus)
qed

lemma run_unique:
  assumes "list_all P a" "list_all P b" "a @ x = b @ y"
    and "x = [] \<or> \<not> P (hd x)" and "y = [] \<or> \<not> P (hd y)"
  shows "a = b \<and> x = y"
proof -
  have tx: "takeWhile P x = []" using assms(4) by (cases x) auto
  have ty: "takeWhile P y = []" using assms(5) by (cases y) auto
  have "takeWhile P (a @ x) = a" using assms(1) tx by (simp add: list_all_iff takeWhile_append2)
  moreover have "takeWhile P (b @ y) = b" using assms(2) ty by (simp add: list_all_iff takeWhile_append2)
  ultimately have "a = b" using assms(3) by simp
  then show ?thesis using assms(3) by simp
qed

lemma word_not_space: "is_word ch \<or> ch = CHR ''.'' \<Longrightarrow> \<not> is_space ch"
  by (auto simp: is_word_def is_space_def Let_def)

lemma rx_lit_iff: "r \<in> set (rx_lit w s) \<longleftrightarrow> s = w @ r"
proof
  assume "r \<in> set (rx_lit w s)"
  then have "take (length w) s = w" and "r = drop (length w) s"
    by (auto simp: rx_lit_def split: if_splits)
  then show "s = w @ r" by (metis append_take_drop_id)
next
  assume "s = w @ r"
  then show "r \<in> set (rx_lit w s)" by (simp add: rx_lit_def)
qed

lemma rx_seq_iff: "r \<in> set (rx_seq m1 m2 s) \<longleftrightarrow> (\<exists>r1\<in>set (m1 s). r \<in> set (m2 r1))"
  by (auto simp: rx_seq_def)

lemma rx_opt_iff: "r \<in> set (rx_opt m s) \<longleftrightarrow> r \<in> set (m s) \<or> r = s"
  by (auto simp: rx_opt_def)

lemma rx_star_all: "r \<in> set (rx_star p s) \<Longrightarrow> \<exists>c. s = c @ r \<and> list_all p c"
  using rx_star_split[of r p s] by (auto simp: list_all_iff)

lemma rx_plus_all: "r \<in> set (rx_plus p s) \<Longrightarrow> \<exists>c. s = c @ r \<and> c \<noteq> [] \<and> list_all p c"
  using rx_plus_split[of r p s] by (auto simp: list_all_iff)

lemma prefix_match:
  assumes "r \<in> set (rx_seq (rx_star is_space)
                     (rx_seq (rx_opt (rx_seq (rx_lit ''open'') (rx_plus is_space)))
                        (rx_seq (rx_lit ''import'') (rx_plus is_space))) line)"
  shows "\<exists>pre. line = pre @ r \<and> import_prefix pre"
proof -
  from assms obtain r1 r2 r3 where
    r1: "r1 \<in> set (rx_star is_space line)"
    and r2: "r2 \<in> set (rx_opt (rx_seq (rx_lit ''open'') (rx_plus is_space)) r1)"
    and r3: "r3 \<in> set (rx_lit ''import'' r2)"
    and r: "r \<in> set (rx_plus is_space r3)"
    unfolding rx_seq_iff by blast
  obtain ws where ws: "line = ws @ r1" "list_all is_space ws" using rx_star_all[OF r1] by blast
  have "\<exists>opn. r1 = opn @ r2
          \<and> (opn = [] \<or> (\<exists>ws1. opn = ''open'' @ ws1 \<and> ws1 \<noteq> [] \<and> list_all is_space ws1))"
  proof (cases "r2 = r1")
    case True
    then show ?thesis by simp
  next
    case False
    then obtain q where q: "q \<in> set (rx_lit ''open'' r1)" "r2 \<in> set (rx_plus is_space q)"
      using r2 unfolding rx_opt_iff rx_seq_iff by blast
    obtain ws1 where "q = ws1 @ r2" "ws1 \<noteq> []" "list_all is_space ws1"
      using rx_plus_all[OF q(2)] by blast
    moreover have "r1 = ''open'' @ q" using q(1) by (simp only: rx_lit_iff)
    ultimately have "r1 = (''open'' @ ws1) @ r2 \<and> ws1 \<noteq> [] \<and> list_all is_space ws1" by simp
    then show ?thesis by blast
  qed
  then obtain opn where opn: "r1 = opn @ r2"
    "opn = [] \<or> (\<exists>ws1. opn = ''open'' @ ws1 \<and> ws1 \<noteq> [] \<and> list_all is_space ws1)" by blast
  have i: "r2 = ''import'' @ r3" using r3 by (simp only: rx_lit_iff)
  obtain ws2 where ws2: "r3 = ws2 @ r" "ws2 \<noteq> []" "list_all is_space ws2"
    using rx_plus_all[OF r] by blast
  have "line = (ws @ opn @ ''import'' @ ws2) @ r" using ws(1) opn(1) i ws2(1) by simp
  moreover have "import_prefix (ws @ opn @ ''import'' @ ws2)"
    unfolding import_prefix_def using ws(2) opn(2) ws2(2,3) by blast
  ultimately show ?thesis by blast
qed

lemma tail_match:
  assumes "r3 \<in> set (rx_opt (rx_seq (rx_plus is_space) (rx_star (\<lambda>c. c \<noteq> newline))) r2)"
    and "rx_end r3"
  shows "r2 = [] \<or> is_space (hd r2)"
proof (cases "r3 = r2")
  case True
  then show ?thesis using assms(2) by (auto simp: rx_end_def is_space_def newline_def)
next
  case False
  then obtain q where "q \<in> set (rx_plus is_space r2)"
    using assms(1) unfolding rx_opt_iff rx_seq_iff by blast
  then obtain sp where "r2 = sp @ q" "sp \<noteq> []" "list_all is_space sp"
    using rx_plus_all by blast
  then show ?thesis by (cases sp) auto
qed

lemma import_pattern_position:
  assumes "import_pattern line = Some c"
  shows "\<exists>pre rest. line = pre @ c @ rest \<and> import_prefix pre \<and> (rest = [] \<or> is_space (hd rest))"
proof -
  let ?p = "\<lambda>ch. is_word ch \<or> ch = CHR ''.''"
  let ?pm = "rx_seq (rx_star is_space)
                     (rx_seq (rx_opt (rx_seq (rx_lit ''open'') (rx_plus is_space)))
                        (rx_seq (rx_lit ''import'') (rx_plus is_space)))"
  let ?tm = "rx_opt (rx_seq (rx_plus is_space) (rx_star (\<lambda>c. c \<noteq> newline)))"
  let ?ms = "[captured. r1 \<leftarrow> ?pm line, (captured, r2) \<leftarrow> rx_group (rx_plus ?p) r1,
              r3 \<leftarrow> ?tm r2, rx_end r3]"
  have "c \<in> set ?ms"
    using assms unfolding import_pattern_def by (cases ?ms) simp_all
  then obtain r1 r2 r3 where r1: "r1 \<in> set (?pm line)"
    and g: "(c, r2) \<in> set (rx_group (rx_plus ?p) r1)"
    and r3: "r3 \<in> set (?tm r2)" "rx_end r3"
    by (auto split: if_splits)
  obtain pre where pre: "line = pre @ r1" "import_prefix pre" using prefix_match[OF r1] by blast
  have r2: "r2 \<in> set (rx_plus ?p r1)" and c: "c = take (length r1 - length r2) r1"
    using g by (auto simp: rx_group_def)
  obtain c' where "r1 = c' @ r2" using rx_plus_all[OF r2] by blast
  then have "r1 = c @ r2" using c by simp
  then have "line = pre @ c @ r2" using pre(1) by simp
  then show ?thesis using pre(2) tail_match[OF r3] by blast
qed

lemma import_prefix_unique:
  assumes "import_prefix pre" "import_prefix pre'" "pre @ x = pre' @ y"
    and "x \<noteq> []" "\<not> is_space (hd x)" "y \<noteq> []" "\<not> is_space (hd y)"
  shows "pre = pre' \<and> x = y"
proof -
  have ni: "\<not> is_space CHR ''i''" and no: "\<not> is_space CHR ''o''"
    by (simp_all add: is_space_def)
  obtain ws opn ws2 where p: "pre = ws @ opn @ ''import'' @ ws2" "list_all is_space ws"
    "opn = [] \<or> (\<exists>ws1. opn = ''open'' @ ws1 \<and> ws1 \<noteq> [] \<and> list_all is_space ws1)"
    "list_all is_space ws2"
    using assms(1) unfolding import_prefix_def by blast
  obtain ws' opn' ws2' where p': "pre' = ws' @ opn' @ ''import'' @ ws2'" "list_all is_space ws'"
    "opn' = [] \<or> (\<exists>ws1. opn' = ''open'' @ ws1 \<and> ws1 \<noteq> [] \<and> list_all is_space ws1)"
    "list_all is_space ws2'"
    using assms(2) unfolding import_prefix_def by blast
  let ?t = "opn @ ''import'' @ ws2 @ x" and ?t' = "opn' @ ''import'' @ ws2' @ y"
  have ht: "?t = [] \<or> \<not> is_space (hd ?t)" using p(3) ni no by auto
  have ht': "?t' = [] \<or> \<not> is_space (hd ?t')" using p'(3) ni no by auto
  have "ws @ ?t = ws' @ ?t'" using assms(3) p(1) p'(1) by simp
  from run_unique[OF p(2) p'(2) this ht ht'] have ws: "ws = ws'" and t: "?t = ?t'" by simp_all
  have hx: "x = [] \<or> \<not> is_space (hd x)" and hy: "y = [] \<or> \<not> is_space (hd y)"
    using assms(5,7) by simp_all
  have rest: "opn = opn' \<and> ws2 = ws2' \<and> x = y"
  proof (cases "opn = []")
    case True
    show ?thesis
    proof (cases "opn' = []")
      case True
      with \<open>opn = []\<close> t have "ws2 @ x = ws2' @ y" by simp
      from run_unique[OF p(4) p'(4) this hx hy] True \<open>opn = []\<close> show ?thesis by simp
    next
      case False
      then obtain ws1 where "opn' = ''open'' @ ws1" using p'(3) by blast
      with \<open>opn = []\<close> t have False by simp
      then show ?thesis ..
    qed
  next
    case False
    then obtain ws1 where o: "opn = ''open'' @ ws1" "list_all is_space ws1" using p(3) by blast
    show ?thesis
    proof (cases "opn' = []")
      case True
      with o t have False by simp
      then show ?thesis ..
    next
      case False
      then obtain ws1' where o': "opn' = ''open'' @ ws1'" "list_all is_space ws1'"
        using p'(3) by blast
      let ?u = "''import'' @ ws2 @ x" and ?u' = "''import'' @ ws2' @ y"
      have "ws1 @ ?u = ws1' @ ?u'" using t o(1) o'(1) by simp
      moreover have "?u = [] \<or> \<not> is_space (hd ?u)" "?u' = [] \<or> \<not> is_space (hd ?u')"
        using ni by simp_all
      ultimately have w1: "ws1 = ws1'" and "?u = ?u'"
        using run_unique[OF o(2) o'(2)] by blast+
      then have "ws2 @ x = ws2' @ y" by simp
      from run_unique[OF p(4) p'(4) this hx hy] w1 o(1) o'(1) show ?thesis by simp
    qed
  qed
  then show ?thesis using ws p(1) p'(1) by simp
qed

lemma token_not_matched:
  assumes pre: "import_prefix pre" and tok: "tok \<noteq> []" "\<forall>ch\<in>set tok. \<not> is_space ch"
    and rest: "rest = [] \<or> is_space (hd rest)"
    and bad: "\<exists>ch\<in>set tok. \<not> (is_word ch \<or> ch = CHR ''.'')"
  shows "import_pattern (pre @ tok @ rest) = None"
proof (rule ccontr)
  assume "import_pattern (pre @ tok @ rest) \<noteq> None"
  then obtain c where c: "import_pattern (pre @ tok @ rest) = Some c" by blast
  have shape: "c \<noteq> []" "\<forall>ch\<in>set c. is_word ch \<or> ch = CHR ''.''"
    using import_pattern_captured[OF c] by simp_all
  obtain pre' rest' where d: "pre @ tok @ rest = pre' @ c @ rest'" "import_prefix pre'"
    "rest' = [] \<or> is_space (hd rest')"
    using import_pattern_position[OF c] by blast
  have cns: "\<forall>ch\<in>set c. \<not> is_space ch" using shape(2) word_not_space by blast
  have "tok @ rest \<noteq> []" "\<not> is_space (hd (tok @ rest))" using tok by (cases tok; simp)+
  moreover have "c @ rest' \<noteq> []" "\<not> is_space (hd (c @ rest'))" using shape(1) cns by (cases c; simp)+
  ultimately have "tok @ rest = c @ rest'"
    using import_prefix_unique[OF pre d(2) d(1)] by simp
  moreover have "list_all (\<lambda>ch. \<not> is_space ch) tok" "list_all (\<lambda>ch. \<not> is_space ch) c"
    using tok(2) cns by (simp_all add: list_all_iff)
  ultimately have "tok = c"
    using run_unique[of "\<lambda>ch. \<not> is_space ch" tok c rest rest'] rest d(3) by simp
  then show False using bad shape(2) by blast
qed

lemma set_set_add: "set (set_add x xs) = insert x (set xs)"
  by (auto simp: set_add_def)

lemma parse_line_imports:
  "set (imports_of (parse_line m line)) =
     (if startswith (strip line) ''--'' then set (imports_of m)
      else case import_pattern line of None \<Rightarrow> set (imports_of m)
           | Some c \<Rightarrow> insert c (set (imports_of m)))"
  by (simp add: parse_line_def Let_def set_set_add split: option.splits)

lemma parse_line_subset:
  "set (public_imports m) \<subseteq> set (imports_of m) \<Longrightarrow>
   set (public_imports (parse_line m line)) \<subseteq> set (imports_of (parse_line m line))"
  by (auto simp: parse_line_def Let_def set_set_add split: option.splits if_splits)

lemma parse_lines_subset:
  "set (public_imports m) \<subseteq> set (imports_of m) \<Longrightarrow>
   set (public_imports (fold (\<lambda>line m. parse_line m line) ls m))
     \<subseteq> set (imports_of (fold (\<lambda>line m. parse_line m line) ls m))"
  by (induction ls arbitrary: m) (simp_all add: parse_line_subset)

lemma parse_imports_subset:
  "set (public_imports m) \<subseteq> set (imports_of m) \<Longrightarrow>
   set (public_imports (parse_imports m content)) \<subseteq> set (imports_of (parse_imports m content))"
  by (cases content) (simp_all add: parse_imports_def parse_lines_subset)

lemma set_update_subset: "set (AList.update k v al) \<subseteq> insert (k, v) (set al)"
  by (induction al) auto

lemma scan_files_subset:
  assumes "\<forall>(n, m) \<in> set mods. set (public_imports m) \<subseteq> set (imports_of m)"
  shows "\<forall>(n, m) \<in> set (fold (\<lambda>f m. scan_file m f) files mods).
           set (public_imports m) \<subseteq> set (imports_of m)"
  using assms
proof (induction files arbitrary: mods)
  case Nil
  then show ?case by simp
next
  case (Cons f files)
  obtain nm fp content where f: "f = (nm, fp, content)" by (cases f)
  have "\<forall>(n, m) \<in> set (scan_file mods f). set (public_imports m) \<subseteq> set (imports_of m)"
  proof (cases "nm = []")
    case True
    then show ?thesis using Cons.prems by (simp add: scan_file_def f)
  next
    case False
    let ?v = "parse_imports (AgdaModule_init nm fp) content"
    have v: "set (public_imports ?v) \<subseteq> set (imports_of ?v)"
      by (rule parse_imports_subset) (simp add: AgdaModule_init_def)
    have "set (scan_file mods f) \<subseteq> insert (nm, ?v) (set mods)"
      using False by (simp add: scan_file_def f set_update_subset)
    then show ?thesis using v Cons.prems by blast
  qed
  then show ?case using Cons.IH by simp
qed

text \<open>
  Claim C7. For every text, the public imports that \<^verbatim>\<open>_parse_imports\<close> leaves in a fresh
  module are among its imports; so this holds for every module after \<^verbatim>\<open>scan_modules\<close> on
  a fresh analyzer.
\<close>

theorem public_subset_imports:
  "set (public_imports (parse_imports (AgdaModule_init nm fp) content))
     \<subseteq> set (imports_of (parse_imports (AgdaModule_init nm fp) content))
   \<and> (\<forall>(n, m) \<in> set (modules (scan_modules DependencyAnalyzer_init files)).
         set (public_imports m) \<subseteq> set (imports_of m))"
proof -
  have "set (public_imports (parse_imports (AgdaModule_init nm fp) content))
     \<subseteq> set (imports_of (parse_imports (AgdaModule_init nm fp) content))"
    by (rule parse_imports_subset) (simp add: AgdaModule_init_def)
  moreover have "\<forall>(n, m) \<in> set (modules (scan_modules DependencyAnalyzer_init files)).
         set (public_imports m) \<subseteq> set (imports_of m)"
    using scan_files_subset[of "[]" files]
    by (simp add: scan_modules_def Let_def DependencyAnalyzer_init_def)
  ultimately show ?thesis by (rule conjI)
qed

theorem public_subset_imports_witness:
  "(''Cat'', \<lparr>name = ''Cat'', filepath = ''Cat.agda'', imports_of = [''Base'', ''Prim'', ''Ext''],
            public_imports = [''Base''], is_literate = False\<rparr>)
     \<in> set (modules (scan_modules DependencyAnalyzer_init example_files))
   \<and> set (public_imports \<lparr>name = ''Cat'', filepath = ''Cat.agda'',
            imports_of = [''Base'', ''Prim'', ''Ext''], public_imports = [''Base''],
            is_literate = False\<rparr>)
       \<subseteq> set (imports_of \<lparr>name = ''Cat'', filepath = ''Cat.agda'',
            imports_of = [''Base'', ''Prim'', ''Ext''], public_imports = [''Base''],
            is_literate = False\<rparr>)"
proof -
  let ?m = "\<lparr>name = ''Cat'', filepath = ''Cat.agda'', imports_of = [''Base'', ''Prim'', ''Ext''],
            public_imports = [''Base''], is_literate = False\<rparr>"
  have h: "(''Cat'', ?m) \<in> set (modules (scan_modules DependencyAnalyzer_init example_files))"
    by (simp add: example_analyzer_eval[unfolded example_analyzer_def])
  from public_subset_imports[of "[]" "[]" None example_files, THEN conjunct2, rule_format, OF h]
  have "set (public_imports ?m) \<subseteq> set (imports_of ?m)" by simp
  with h show ?thesis by (rule conjI)
qed

text \<open>
  Claim C3, as the code has it. A line adds a name to the imports only when the pattern
  matches, and the name is then what group 1 captured: one or more characters, each a word
  character or a dot, wherever the dots stand (the class is \<^verbatim>\<open>[\w.]+\<close>). The name stands
  right after the import prefix and is followed by whitespace or the end of the line, so
  it is the whole token at the import position. A line whose token at the import position
  holds a character that is neither a word character nor a dot adds nothing: the module is
  left as it was.
\<close>

theorem captured_name_shape:
  "(c \<in> set (imports_of (parse_line m line)) \<longrightarrow> c \<notin> set (imports_of m) \<longrightarrow>
      import_pattern line = Some c \<and> c \<noteq> [] \<and> (\<forall>ch\<in>set c. is_word ch \<or> ch = CHR ''.'')
      \<and> (\<exists>pre rest. line = pre @ c @ rest \<and> import_prefix pre
            \<and> (rest = [] \<or> is_space (hd rest))))
   \<and> (import_prefix pre \<longrightarrow> tok \<noteq> [] \<longrightarrow> (\<forall>ch\<in>set tok. \<not> is_space ch) \<longrightarrow>
      (rest = [] \<or> is_space (hd rest)) \<longrightarrow>
      (\<exists>ch\<in>set tok. \<not> (is_word ch \<or> ch = CHR ''.'')) \<longrightarrow>
      parse_line m (pre @ tok @ rest) = m)"
proof (intro conjI impI)
  assume "c \<in> set (imports_of (parse_line m line))" and "c \<notin> set (imports_of m)"
  then show p: "import_pattern line = Some c"
    unfolding parse_line_imports by (auto split: if_splits option.splits)
  show "c \<noteq> []" and "\<forall>ch\<in>set c. is_word ch \<or> ch = CHR ''.''"
    using import_pattern_captured[OF p] by simp_all
  show "\<exists>pre rest. line = pre @ c @ rest \<and> import_prefix pre \<and> (rest = [] \<or> is_space (hd rest))"
    by (rule import_pattern_position[OF p])
next
  assume "import_prefix pre" "tok \<noteq> []" "\<forall>ch\<in>set tok. \<not> is_space ch"
    "rest = [] \<or> is_space (hd rest)" "\<exists>ch\<in>set tok. \<not> (is_word ch \<or> ch = CHR ''.'')"
  then have "import_pattern (pre @ tok @ rest) = None" by (rule token_not_matched)
  then show "parse_line m (pre @ tok @ rest) = m" by (simp add: parse_line_def)
qed

theorem captured_name_shape_witness:
  "''A.B'' \<in> set (imports_of (parse_line (AgdaModule_init ''M'' ''M.agda'') ''open import A.B using (x)''))
   \<and> ''A.B'' \<notin> set (imports_of (AgdaModule_init ''M'' ''M.agda''))
   \<and> import_pattern ''open import A.B using (x)'' = Some ''A.B''
   \<and> list_all (\<lambda>ch. is_word ch \<or> ch = CHR ''.'') ''A.B''
   \<and> (\<exists>pre rest. ''open import A.B using (x)'' = pre @ ''A.B'' @ rest \<and> import_prefix pre
         \<and> (rest = [] \<or> is_space (hd rest)))
   \<and> import_prefix ''import ''
   \<and> list_all (\<lambda>ch. \<not> is_space ch) ''A-B''
   \<and> list_ex (\<lambda>ch. \<not> (is_word ch \<or> ch = CHR ''.'')) ''A-B''
   \<and> parse_line (AgdaModule_init ''M'' ''M.agda'') (''import '' @ ''A-B'' @ [])
       = AgdaModule_init ''M'' ''M.agda''"
proof -
  have h1: "''A.B'' \<in> set (imports_of (parse_line (AgdaModule_init ''M'' ''M.agda'')
              ''open import A.B using (x)''))"
    by (simp add: parse_defs rx_defs AgdaModule_init_def)
  have h2: "''A.B'' \<notin> set (imports_of (AgdaModule_init ''M'' ''M.agda''))"
    by (simp add: AgdaModule_init_def)
  from captured_name_shape[where c = "''A.B''" and line = "''open import A.B using (x)''"
      and m = "AgdaModule_init ''M'' ''M.agda''", THEN conjunct1, rule_format, OF h1 h2]
  have a: "import_pattern ''open import A.B using (x)'' = Some ''A.B''"
    and b: "list_all (\<lambda>ch. is_word ch \<or> ch = CHR ''.'') ''A.B''"
    and c: "\<exists>pre rest. ''open import A.B using (x)'' = pre @ ''A.B'' @ rest \<and> import_prefix pre
         \<and> (rest = [] \<or> is_space (hd rest))"
    unfolding list_all_iff by blast+
  have "''import '' = [] @ [] @ ''import'' @ '' '' \<and> list_all is_space []
      \<and> ([] = [] \<or> (\<exists>ws1. [] = ''open'' @ ws1 \<and> ws1 \<noteq> [] \<and> list_all is_space ws1))
      \<and> '' '' \<noteq> [] \<and> list_all is_space '' ''"
    by (simp add: is_space_def)
  then have g1: "import_prefix ''import ''" unfolding import_prefix_def by blast
  have g2: "''A-B'' \<noteq> []" by simp
  have g3: "\<forall>ch\<in>set ''A-B''. \<not> is_space ch" by (simp add: is_space_def)
  have g4: "[] = [] \<or> is_space (hd [])" by simp
  have g5: "\<exists>ch\<in>set ''A-B''. \<not> (is_word ch \<or> ch = CHR ''.'')" by (simp add: is_word_def)
  note r = captured_name_shape[where pre = "''import ''" and tok = "''A-B''" and rest = "[]"
      and m = "AgdaModule_init ''M'' ''M.agda''", THEN conjunct2]
  have d: "parse_line (AgdaModule_init ''M'' ''M.agda'') (''import '' @ ''A-B'' @ [])
       = AgdaModule_init ''M'' ''M.agda''"
    by (rule r[THEN mp, THEN mp, THEN mp, THEN mp, THEN mp, OF g1 g2 g3 g4 g5])
  have e: "list_all (\<lambda>ch. \<not> is_space ch) ''A-B''" using g3 by (simp only: list_all_iff)
  have f: "list_ex (\<lambda>ch. \<not> (is_word ch \<or> ch = CHR ''.'')) ''A-B''"
    using g5 by (simp only: list_ex_iff)
  show ?thesis using h1 h2 a b c g1 e f d by (intro conjI)
qed

text \<open>
  Claim C3 as stated fails: a token with a leading dot, two dots in a row and a trailing
  dot is captured and added as it is.
\<close>

theorem captured_name_shape_counterexample:
  "imports_of (parse_line (AgdaModule_init ''M'' ''M.agda'') ''import .a..b.'') = [''.a..b.'']"
  by (simp add: parse_defs rx_defs AgdaModule_init_def)

section \<open>Properties of the depth tiers\<close>

lemma categorize_filter:
  "categorize xs sh me de =
     (sh @ filter (\<lambda>e. snd e \<le> 5) xs,
      me @ filter (\<lambda>e. 6 \<le> snd e \<and> snd e \<le> 15) xs,
      de @ filter (\<lambda>e. 16 \<le> snd e) xs)"
  by (induction xs sh me de rule: categorize.induct) auto

lemma analyze_fields:
  "chain_lengths (analyze_dependency_patterns st) = calculate_dependency_chains (modules st)"
  "shallow (analyze_dependency_patterns st)
     = sort_key snd (filter (\<lambda>e. snd e \<le> 5) (calculate_dependency_chains (modules st)))"
  "medium (analyze_dependency_patterns st)
     = sort_key snd (filter (\<lambda>e. 6 \<le> snd e \<and> snd e \<le> 15) (calculate_dependency_chains (modules st)))"
  "deep (analyze_dependency_patterns st)
     = sort_reverse snd (filter (\<lambda>e. 16 \<le> snd e) (calculate_dependency_chains (modules st)))"
  by (simp_all add: analyze_dependency_patterns_def Let_def categorize_filter)

lemma chain_entry:
  assumes "distinct (map fst cl)"
  shows "(m, d) \<in> set cl \<longleftrightarrow> m \<in> fst ` set cl \<and> chain_get cl m = d"
proof
  assume a: "(m, d) \<in> set cl"
  then have "map_of cl m = Some d" using assms by simp
  then show "m \<in> fst ` set cl \<and> chain_get cl m = d" using a by (force simp: chain_get_def)
next
  assume a: "m \<in> fst ` set cl \<and> chain_get cl m = d"
  then obtain d' where d': "(m, d') \<in> set cl" by auto
  then have "map_of cl m = Some d'" using assms by simp
  then have "chain_get cl m = d'" by (simp add: chain_get_def)
  then show "(m, d) \<in> set cl" using a d' by simp
qed

lemma tier_names:
  assumes "distinct (map fst cl)"
  shows "fst ` {e \<in> set cl. P (snd e)} = {m \<in> fst ` set cl. P (chain_get cl m)}"
proof (intro set_eqI iffI)
  fix m assume "m \<in> fst ` {e \<in> set cl. P (snd e)}"
  then obtain d where "(m, d) \<in> set cl" "P d" by auto
  then show "m \<in> {m \<in> fst ` set cl. P (chain_get cl m)}"
    using chain_entry[OF assms, of m d] by simp
next
  fix m assume "m \<in> {m \<in> fst ` set cl. P (chain_get cl m)}"
  then have "(m, chain_get cl m) \<in> set cl" "P (chain_get cl m)"
    using chain_entry[OF assms, of m "chain_get cl m"] by simp_all
  then show "m \<in> fst ` {e \<in> set cl. P (snd e)}" by force
qed

lemma distinct_three_filters:
  assumes "distinct (map fst cl)"
    and "\<And>x. \<not> (P x \<and> Q x)" "\<And>x. \<not> (P x \<and> R x)" "\<And>x. \<not> (Q x \<and> R x)"
  shows "distinct (map fst (filter P cl @ filter Q cl @ filter R cl))"
  using assms(1)
proof (induction cl)
  case Nil
  then show ?case by simp
next
  case (Cons e cl)
  have notin: "fst e \<notin> fst ` set cl" and d: "distinct (map fst cl)" using Cons.prems by auto
  have ih: "distinct (map fst (filter P cl @ filter Q cl @ filter R cl))" by (rule Cons.IH[OF d])
  have sub: "fst ` set (filter X cl) \<subseteq> fst ` set cl" for X by auto
  have n: "fst e \<notin> fst ` set (filter X cl)" for X using notin sub[of X] by blast
  show ?case using ih n[of P] n[of Q] n[of R] assms(2,3,4)[of e]
    by (auto simp: image_Un)
qed

lemma tier_filter_append:
  "filter (\<lambda>e. snd e = d) (filter (\<lambda>e. snd e \<le> 5) cl)
   @ filter (\<lambda>e. snd e = d) (filter (\<lambda>e. 6 \<le> snd e \<and> snd e \<le> 15) cl)
   @ filter (\<lambda>e. snd e = d) (filter (\<lambda>e. 16 \<le> snd e) cl)
   = filter (\<lambda>e. snd e = (d::nat)) (cl :: (string \<times> nat) list)"
proof -
  consider "d \<le> 5" | "6 \<le> d \<and> d \<le> 15" | "16 \<le> d" by linarith
  then show ?thesis
  proof cases
    case 1
    then have "filter (\<lambda>e. snd e = d) (filter (\<lambda>e. snd e \<le> 5) cl) = filter (\<lambda>e. snd e = d) cl"
      and "filter (\<lambda>e. snd e = d) (filter (\<lambda>e. 6 \<le> snd e \<and> snd e \<le> 15) cl) = []"
      and "filter (\<lambda>e. snd e = d) (filter (\<lambda>e. 16 \<le> snd e) cl) = []"
      by (auto simp: filter_empty_conv intro: filter_cong)
    then show ?thesis by simp
  next
    case 2
    then have "filter (\<lambda>e. snd e = d) (filter (\<lambda>e. snd e \<le> 5) cl) = []"
      and "filter (\<lambda>e. snd e = d) (filter (\<lambda>e. 6 \<le> snd e \<and> snd e \<le> 15) cl)
           = filter (\<lambda>e. snd e = d) cl"
      and "filter (\<lambda>e. snd e = d) (filter (\<lambda>e. 16 \<le> snd e) cl) = []"
      by (auto simp: filter_empty_conv intro: filter_cong)
    then show ?thesis by simp
  next
    case 3
    then have "filter (\<lambda>e. snd e = d) (filter (\<lambda>e. snd e \<le> 5) cl) = []"
      and "filter (\<lambda>e. snd e = d) (filter (\<lambda>e. 6 \<le> snd e \<and> snd e \<le> 15) cl) = []"
      and "filter (\<lambda>e. snd e = d) (filter (\<lambda>e. 16 \<le> snd e) cl) = filter (\<lambda>e. snd e = d) cl"
      by (auto simp: filter_empty_conv intro: filter_cong)
    then show ?thesis by simp
  qed
qed

text \<open>
  Claim C4, as the code has it. The three tiers hold exactly the known modules, each once,
  with its depth: shallow the depths 0 to 5, medium 6 to 15, deep 16 and more. Shallow and
  medium ascend by depth and deep descends. The sorts compare depths only and are stable, so
  modules of equal depth stand in the order of \<^verbatim>\<open>chain_lengths\<close>, the order in which the depth
  computation finalized them.
\<close>

theorem depth_tiers:
  "fst ` set (shallow (analyze_dependency_patterns st))
     = {m \<in> known (modules st). chain_get (chain_lengths (analyze_dependency_patterns st)) m \<le> 5}
   \<and> fst ` set (medium (analyze_dependency_patterns st))
     = {m \<in> known (modules st). 6 \<le> chain_get (chain_lengths (analyze_dependency_patterns st)) m
          \<and> chain_get (chain_lengths (analyze_dependency_patterns st)) m \<le> 15}
   \<and> fst ` set (deep (analyze_dependency_patterns st))
     = {m \<in> known (modules st). 16 \<le> chain_get (chain_lengths (analyze_dependency_patterns st)) m}
   \<and> distinct (map fst (shallow (analyze_dependency_patterns st)
        @ medium (analyze_dependency_patterns st) @ deep (analyze_dependency_patterns st)))
   \<and> (\<forall>e \<in> set (shallow (analyze_dependency_patterns st)
        @ medium (analyze_dependency_patterns st) @ deep (analyze_dependency_patterns st)).
        snd e = chain_get (chain_lengths (analyze_dependency_patterns st)) (fst e))
   \<and> sorted (map snd (shallow (analyze_dependency_patterns st)))
   \<and> sorted (map snd (medium (analyze_dependency_patterns st)))
   \<and> sorted (rev (map snd (deep (analyze_dependency_patterns st))))
   \<and> (\<forall>d. filter (\<lambda>e. snd e = d) (shallow (analyze_dependency_patterns st)
               @ medium (analyze_dependency_patterns st) @ deep (analyze_dependency_patterns st))
           = filter (\<lambda>e. snd e = d) (chain_lengths (analyze_dependency_patterns st)))"
proof -
  let ?cl = "calculate_dependency_chains (modules st)"
  let ?A = "analyze_dependency_patterns st"
  let ?P1 = "\<lambda>e::string \<times> nat. snd e \<le> 5"
  let ?P2 = "\<lambda>e::string \<times> nat. 6 \<le> snd e \<and> snd e \<le> 15"
  let ?P3 = "\<lambda>e::string \<times> nat. 16 \<le> snd e"
  note f = analyze_fields[of st]
  have dist: "distinct (map fst ?cl)" by (rule calc_distinct)
  have keys: "fst ` set ?cl = known (modules st)" by (rule calc_keys)
  have c1: "fst ` set (shallow ?A) = {m \<in> known (modules st). chain_get (chain_lengths ?A) m \<le> 5}"
    unfolding f using tier_names[OF dist, of "\<lambda>d. d \<le> 5"] by (simp add: keys)
  have c2: "fst ` set (medium ?A) = {m \<in> known (modules st). 6 \<le> chain_get (chain_lengths ?A) m
          \<and> chain_get (chain_lengths ?A) m \<le> 15}"
    unfolding f using tier_names[OF dist, of "\<lambda>d. 6 \<le> d \<and> d \<le> 15"] by (simp add: keys)
  have c3: "fst ` set (deep ?A) = {m \<in> known (modules st). 16 \<le> chain_get (chain_lengths ?A) m}"
    unfolding f using tier_names[OF dist, of "\<lambda>d. 16 \<le> d"] by (simp add: keys sort_reverse_set)
  have d0: "distinct (map fst (filter ?P1 ?cl @ filter ?P2 ?cl @ filter ?P3 ?cl))"
    by (rule distinct_three_filters[OF dist]) auto
  have c4: "distinct (map fst (shallow ?A @ medium ?A @ deep ?A))"
    using d0 unfolding f
    by (simp add: distinct_map sort_reverse_set sort_reverse_distinct del: filter_append map_append)
  have c5: "\<forall>e \<in> set (shallow ?A @ medium ?A @ deep ?A). snd e = chain_get (chain_lengths ?A) (fst e)"
  proof
    fix e assume "e \<in> set (shallow ?A @ medium ?A @ deep ?A)"
    then have "e \<in> set ?cl" unfolding f by (auto simp: sort_reverse_set)
    then have "(fst e, snd e) \<in> set ?cl" by simp
    then show "snd e = chain_get (chain_lengths ?A) (fst e)"
      unfolding f using chain_entry[OF dist, of "fst e" "snd e"] by simp
  qed
  have c6: "sorted (map snd (shallow ?A))" unfolding f by (rule sorted_sort_key)
  have c7: "sorted (map snd (medium ?A))" unfolding f by (rule sorted_sort_key)
  have c8: "sorted (rev (map snd (deep ?A)))" unfolding f by (rule sort_reverse_sorted)
  have c9: "filter (\<lambda>e. snd e = d) (shallow ?A @ medium ?A @ deep ?A)
           = filter (\<lambda>e. snd e = d) (chain_lengths ?A)" for d
    unfolding f filter_append sort_key_stable sort_reverse_stable by (rule tier_filter_append)
  show ?thesis using c1 c2 c3 c4 c5 c6 c7 c8 c9 by (intro conjI allI)
qed

theorem depth_tiers_witness:
  "(''Cat'', 2) \<in> set (shallow (analyze_dependency_patterns example_analyzer)
        @ medium (analyze_dependency_patterns example_analyzer)
        @ deep (analyze_dependency_patterns example_analyzer))
   \<and> snd (''Cat'', 2 :: nat)
       = chain_get (chain_lengths (analyze_dependency_patterns example_analyzer)) (fst (''Cat'', 2 :: nat))"
proof -
  have cl: "calculate_dependency_chains (modules example_analyzer)
              = [(''Prim'', 0), (''Base'', 1), (''Cat'', 2)]"
    by (simp add: example_analyzer_eval calculate_dependency_chains_def dfs.simps known_def)
  have h: "(''Cat'', 2) \<in> set (shallow (analyze_dependency_patterns example_analyzer)
        @ medium (analyze_dependency_patterns example_analyzer)
        @ deep (analyze_dependency_patterns example_analyzer))"
    by (simp add: analyze_fields cl sort_reverse_def)
  from depth_tiers[of example_analyzer, THEN conjunct2, THEN conjunct2, THEN conjunct2,
      THEN conjunct2, THEN conjunct1, rule_format, OF h] h
  show ?thesis by (rule conjI[rotated])
qed

text \<open>
  Claim C4 as stated fails where it says that equal depths are ordered by name: two modules
  without imports, \<open>B\<close> discovered before \<open>A\<close>, both have depth 0 and come out as \<open>B\<close>, \<open>A\<close>.
\<close>

theorem depth_tiers_counterexample:
  "shallow (analyze_dependency_patterns
      \<lparr>modules = [(''B'', AgdaModule_init ''B'' ''B.agda''), (''A'', AgdaModule_init ''A'' ''A.agda'')],
       reverse_deps = []\<rparr>) = [(''B'', 0), (''A'', 0)]
   \<and> \<not> (''B'' :: string) \<le> ''A''"
  by (simp add: analyze_fields calculate_dependency_chains_def dfs.simps known_def
      AgdaModule_init_def)

end
